theory Spec2Isabelle
  imports Complex_Main "HOL-Library.Sublist"
begin

section \<open>Data model\<close>

text \<open>
  The program (\<open>main.py\<close>) talks to the Drive service through two calls,
  \<open>files().update(...).execute()\<close> and \<open>files().list(...).execute()\<close>, sleeps between
  retries and writes log lines. Everything it does to the outside world is recorded, in
  order, in a trace of events; every function of the model takes the trace so far and
  returns the extended one.

  A JSON object with string values (the body of an update, the response of an update,
  one entry of a listing) is a Python \<open>dict\<close>, modelled as an association list.
\<close>

type_synonym dict = "(string \<times> string) list"

text \<open>
  Exceptions. \<open>HttpError st\<close> carries what \<open>int(e.resp.status)\<close> evaluates to in the
  handler of \<open>retryable_update\<close>: \<open>Some n\<close>, or \<open>None\<close> when that conversion raises
  (the handler then leaves \<open>status = None\<close>). \<open>OtherError\<close> stands for every exception
  the transport can raise that is not an \<open>HttpError\<close>.
\<close>

datatype exn =
    HttpError "int option"
  | RuntimeError string
  | KeyError string
  | OverflowError string
  | ValueError string
  | OtherError string

text \<open>The calls of \<open>logging\<close>, one constructor for each call site of the source.\<close>

datatype log_record =
    LogDryRun string dict
  | LogTransient "int option" int int rat
  | LogNonRetryable "int option"
  | LogUpdatingFolder string string
  | LogUpdatedFolder "string option" "string option"
  | LogNoChildren string
  | LogFolderChild string string
  | LogFile string string
  | LogAllDone

text \<open>
  \<open>FilesUpdate fileId body fields\<close> is one \<open>files().update\<close> request (always sent with
  \<open>supportsAllDrives=True\<close>); \<open>FilesList parent_id pageToken\<close> is one \<open>files().list\<close>
  request (always with the query \<open>'parent_id' in parents and trashed=false\<close>, page size
  1000); \<open>Sleep s\<close> is \<open>time.sleep(s)\<close>.
\<close>

datatype event =
    FilesUpdate string dict string
  | FilesList string "string option"
  | Sleep rat
  | Log log_record

type_synonym trace = "event list"

text \<open>
  One page of a listing: \<open>response.get('files', [])\<close> and
  \<open>response.get('nextPageToken')\<close> read these two keys, either of which may be absent.
\<close>

record list_response =
  files :: "dict list option"
  nextPageToken :: "string option"

text \<open>
  The environment of a run: the remote service and the random number generator. The
  service is not assumed to be a function of the request only: each answer may depend on
  everything that happened before (the trace), so a file may fail twice and then
  succeed, and a listing may change after an update.
\<close>

record env =
  files_update :: "trace \<Rightarrow> string \<Rightarrow> dict \<Rightarrow> string \<Rightarrow> exn + dict"
  files_list :: "trace \<Rightarrow> string \<Rightarrow> string option \<Rightarrow> exn + list_response"
  random_random :: "trace \<Rightarrow> rat"

definition FOLDER_MIME :: string where
  "FOLDER_MIME = ''application/vnd.google-apps.folder''"

definition DEFAULT_RETRIES :: int where
  "DEFAULT_RETRIES = 5"

section \<open>The sleep duration\<close>

text \<open>
  \<open>sleep_for = backoff_base * (2 ** attempt) + random.random()\<close> adds a Python \<open>int\<close> and
  a Python \<open>float\<close>. A finite float (an IEEE 754 double) is modelled by the rational
  number it denotes. The sum is computed as a double: the integer \<open>2 ** attempt\<close> is
  converted (exactly, up to \<open>2 ** 1023\<close>; from \<open>2 ** 1024\<close> on the conversion raises
  \<open>OverflowError\<close>), and the exact sum is rounded to the nearest double, ties to the one
  with an even significand. With \<open>0 \<le> r < 1\<close> the exact sum lies in
  \<open>[2 ^ attempt, 2 ^ (attempt + 1))\<close>, where neighbouring doubles are
  \<open>2 ^ (attempt - 52)\<close> apart.
\<close>

definition round_half_even :: "rat \<Rightarrow> int" where
  "round_half_even q =
     (let f = \<lfloor>q\<rfloor>; d = q - of_int f
      in if d < 1 / 2 then f else if 1 / 2 < d then f + 1 else if even f then f else f + 1)"

definition nearest_double :: "int \<Rightarrow> rat \<Rightarrow> rat" where
  \<comment> \<open>the double nearest to \<open>x\<close>, for \<open>2 ^ e \<le> x < 2 ^ (e + 1)\<close>\<close>
  "nearest_double e x =
     of_int (round_half_even (x / power_int 2 (e - 52))) * power_int 2 (e - 52)"

definition backoff_base :: int where
  "backoff_base = 1"

definition sleep_for :: "nat \<Rightarrow> rat \<Rightarrow> exn + rat" where
  "sleep_for attempt r =
     (if 1024 \<le> attempt then Inl (OverflowError ''int too large to convert to float'')
      else Inr (nearest_double (int attempt) (of_int (backoff_base * 2 ^ attempt) + r)))"

section \<open>The retrying mutator\<close>

text \<open>
  The body of \<open>for attempt in range(max_retries)\<close>, over the attempts still to run. The
  request is answered by the service from the trace before it. Falling out of the loop
  raises \<open>RuntimeError\<close>.
\<close>

fun retry_attempts ::
  "env \<Rightarrow> string \<Rightarrow> dict \<Rightarrow> string \<Rightarrow> int \<Rightarrow> nat list \<Rightarrow> trace \<Rightarrow> trace \<times> (exn + dict option)"
where
  "retry_attempts sv file_id body flds max_retries [] tr =
     (tr, Inl (RuntimeError ''Max retries exceeded for file update.''))"
| "retry_attempts sv file_id body flds max_retries (attempt # rest) tr =
     (let tr1 = tr @ [FilesUpdate file_id body flds] in
      case files_update sv tr file_id body flds of
        Inr resp \<Rightarrow> (tr1, Inr (Some resp))
      | Inl (HttpError status) \<Rightarrow>
          if status \<in> {Some 429, Some 500, Some 503} then
            (case sleep_for attempt (random_random sv tr1) of
               Inl e \<Rightarrow> (tr1, Inl e)
             | Inr s \<Rightarrow>
                 retry_attempts sv file_id body flds max_retries rest
                   (tr1 @ [Log (LogTransient status (int attempt + 1) max_retries s), Sleep s]))
          else (tr1 @ [Log (LogNonRetryable status)], Inl (HttpError status))
      | Inl e \<Rightarrow> (tr1, Inl e))"

text \<open>
  \<open>retryable_update\<close>: the result \<open>Inr None\<close> is Python's \<open>None\<close> of the dry run,
  \<open>Inr (Some resp)\<close> the response of a successful request.
\<close>

definition retryable_update ::
  "env \<Rightarrow> string \<Rightarrow> dict \<Rightarrow> string \<Rightarrow> bool \<Rightarrow> int \<Rightarrow> trace \<Rightarrow> trace \<times> (exn + dict option)"
where
  "retryable_update sv file_id body flds dry_run max_retries tr =
     (if dry_run then (tr @ [Log (LogDryRun file_id body)], Inr None)
      else retry_attempts sv file_id body flds max_retries [0..<nat max_retries] tr)"

section \<open>The paginated lister\<close>

text \<open>
  The loop \<open>while True\<close> of \<open>list_children\<close> runs for as long as the service keeps
  returning a continuation token, possibly forever. The model counts the requests it may
  still send: with none left the result is \<open>None\<close> (the call has not returned), and the
  trace holds what was sent so far. \<open>if not page_token: break\<close> leaves the loop on a
  missing token and on the empty string.
\<close>

fun list_children_loop ::
  "nat \<Rightarrow> env \<Rightarrow> string \<Rightarrow> dict list \<Rightarrow> string option \<Rightarrow> trace
     \<Rightarrow> trace \<times> (exn + dict list) option"
where
  "list_children_loop 0 sv parent_id children page_token tr = (tr, None)"
| "list_children_loop (Suc n) sv parent_id children page_token tr =
     (let tr1 = tr @ [FilesList parent_id page_token] in
      case files_list sv tr parent_id page_token of
        Inl e \<Rightarrow> (tr1, Some (Inl e))
      | Inr response \<Rightarrow>
          let children' = children @ (case files response of None \<Rightarrow> [] | Some fs \<Rightarrow> fs);
              page_token' = nextPageToken response
          in if page_token' = None \<or> page_token' = Some [] then (tr1, Some (Inr children'))
             else list_children_loop n sv parent_id children' page_token' tr1)"

definition list_children ::
  "nat \<Rightarrow> env \<Rightarrow> string \<Rightarrow> trace \<Rightarrow> trace \<times> (exn + dict list) option"
where
  "list_children n sv parent_id tr = list_children_loop n sv parent_id [] None tr"

section \<open>The traversal engine\<close>

text \<open>
  The loop \<open>for c in children\<close>: \<open>c['id']\<close> raises \<open>KeyError\<close> on an entry without an
  identifier, \<open>c.get('name', '<unknown>')\<close> and \<open>c.get('mimeType', '')\<close> have defaults.
  The function returns the queue, extended by the folders it met when \<open>recursive\<close> is
  set.
\<close>

fun update_children ::
  "env \<Rightarrow> string \<Rightarrow> bool \<Rightarrow> bool \<Rightarrow> dict list \<Rightarrow> string list \<Rightarrow> trace
     \<Rightarrow> trace \<times> (exn + string list)"
where
  "update_children sv new_time recursive dry_run [] queue tr = (tr, Inr queue)"
| "update_children sv new_time recursive dry_run (c # cs) queue tr =
     (case map_of c ''id'' of
        None \<Rightarrow> (tr, Inl (KeyError ''id''))
      | Some cid \<Rightarrow>
          let cname = (case map_of c ''name'' of None \<Rightarrow> ''<unknown>'' | Some v \<Rightarrow> v);
              cmime = (case map_of c ''mimeType'' of None \<Rightarrow> [] | Some v \<Rightarrow> v)
          in if cmime = FOLDER_MIME then
               (case retryable_update sv cid [(''modifiedTime'', new_time)]
                       ''id, name, modifiedTime'' dry_run DEFAULT_RETRIES
                       (tr @ [Log (LogFolderChild cname cid)]) of
                  (tr', Inl e) \<Rightarrow> (tr', Inl e)
                | (tr', Inr _) \<Rightarrow>
                    update_children sv new_time recursive dry_run cs
                      (if recursive then queue @ [cid] else queue) tr')
             else
               (case retryable_update sv cid [(''modifiedTime'', new_time)]
                       ''id, name, modifiedTime'' dry_run DEFAULT_RETRIES
                       (tr @ [Log (LogFile cname cid)]) of
                  (tr', Inl e) \<Rightarrow> (tr', Inl e)
                | (tr', Inr _) \<Rightarrow>
                    update_children sv new_time recursive dry_run cs queue tr'))"

text \<open>
  The loop \<open>while queue\<close>. A service that keeps inventing new folders keeps it running
  forever, so the model counts the iterations it may still run: the result \<open>None\<close> says
  that the loop has not finished within them. The visited set only ever grows; the
  function returns it with the trace.
\<close>

fun walk ::
  "nat \<Rightarrow> env \<Rightarrow> string \<Rightarrow> bool \<Rightarrow> bool \<Rightarrow> string list \<Rightarrow> string set \<Rightarrow> trace
     \<Rightarrow> trace \<times> string set \<times> (exn + unit) option"
where
  "walk n sv new_time recursive dry_run [] visited tr = (tr, visited, Some (Inr ()))"
| "walk 0 sv new_time recursive dry_run (current_folder # queue) visited tr =
     (tr, visited, None)"
| "walk (Suc n) sv new_time recursive dry_run (current_folder # queue) visited tr =
     (if current_folder \<in> visited then walk n sv new_time recursive dry_run queue visited tr
      else
        case list_children (Suc n) sv current_folder tr of
          (tr1, None) \<Rightarrow> (tr1, insert current_folder visited, None)
        | (tr1, Some (Inl e)) \<Rightarrow> (tr1, insert current_folder visited, Some (Inl e))
        | (tr1, Some (Inr children)) \<Rightarrow>
            if children = [] then
              walk n sv new_time recursive dry_run queue (insert current_folder visited)
                (tr1 @ [Log (LogNoChildren current_folder)])
            else
              (case update_children sv new_time recursive dry_run children queue tr1 of
                 (tr2, Inl e) \<Rightarrow> (tr2, insert current_folder visited, Some (Inl e))
               | (tr2, Inr queue') \<Rightarrow>
                   walk n sv new_time recursive dry_run queue'
                     (insert current_folder visited) tr2))"

text \<open>
  \<open>update_folder_and_contents\<close>, started on an empty trace. \<open>if folder_resp\<close> is false
  for \<open>None\<close> and for an empty response.
\<close>

definition update_folder_and_contents ::
  "nat \<Rightarrow> env \<Rightarrow> string \<Rightarrow> string \<Rightarrow> bool \<Rightarrow> bool \<Rightarrow> trace \<times> string set \<times> (exn + unit) option"
where
  "update_folder_and_contents n sv folder_id new_time recursive dry_run =
     (case retryable_update sv folder_id [(''modifiedTime'', new_time)]
             ''id, name, modifiedTime'' dry_run DEFAULT_RETRIES
             [Log (LogUpdatingFolder folder_id new_time)] of
        (tr0, Inl e) \<Rightarrow> (tr0, {}, Some (Inl e))
      | (tr0, Inr folder_resp) \<Rightarrow>
          let tr1 = (case folder_resp of
                       None \<Rightarrow> tr0
                     | Some r \<Rightarrow>
                         if r = [] then tr0
                         else tr0 @ [Log (LogUpdatedFolder (map_of r ''name'')
                                            (map_of r ''modifiedTime''))])
          in (case walk n sv new_time recursive dry_run [folder_id] {} tr1 of
                (tr2, visited, Some (Inr u)) \<Rightarrow>
                  (tr2 @ [Log LogAllDone], visited, Some (Inr u))
              | (tr2, visited, r) \<Rightarrow> (tr2, visited, r)))"

section \<open>The timestamp validator\<close>

text \<open>
  \<open>validate_rfc3339\<close> calls \<open>datetime.strptime\<close>, which belongs to Python's standard
  library and not to the program. It is modelled after CPython's \<open>Lib/_strptime.py\<close>:
  the format is turned into a regular expression, one group for each directive, the
  string is matched from its start ignoring case, the match must consume the whole
  string, and the fields found must be accepted by the constructors of \<open>date\<close> and
  \<open>datetime\<close>. Every failure is a \<open>ValueError\<close>. Strings are lists of 8-bit
  characters, of which only \<open>0\<close> to \<open>9\<close> are decimal digits and only the letters
  \<open>A\<close> to \<open>Z\<close> of the formats matter for the case.

  Regular expressions, as far as the two formats need them, with the matching of
  Python's \<open>re\<close>: alternatives are tried in order, and a later one is tried when an
  earlier one does not lead to a match of the rest. The matcher hands the remaining
  string and the groups found to a continuation.
\<close>

datatype re = Eps | Lit char | OneOf string | Seq re re | Alt re re | Grp string re

text \<open>
  \<open>Lit c\<close> is the character \<open>c\<close> of the pattern, matched ignoring case
  (\<open>re.IGNORECASE\<close>); \<open>OneOf cs\<close> is a character class, given by its members: \<open>\d\<close> is
  \<open>OneOf digits\<close> and \<open>[0-2]\<close> is \<open>OneOf ''012''\<close>; \<open>Grp name r\<close> is the named group
  \<open>(?P<name>r)\<close>.
\<close>

definition lower :: "char \<Rightarrow> char" where
  "lower c =
     (case map_of (zip ''ABCDEFGHIJKLMNOPQRSTUVWXYZ'' ''abcdefghijklmnopqrstuvwxyz'') c of
        None \<Rightarrow> c
      | Some l \<Rightarrow> l)"

definition digits :: string where
  "digits = ''0123456789''"

definition is_digit :: "char \<Rightarrow> bool" where
  "is_digit c = (c \<in> set digits)"

fun rmatch ::
  "re \<Rightarrow> string \<Rightarrow> (string \<times> string) list
     \<Rightarrow> (string \<Rightarrow> (string \<times> string) list \<Rightarrow> 'a option) \<Rightarrow> 'a option"
where
  "rmatch Eps s g k = k s g"
| "rmatch (Lit c) s g k =
     (case s of [] \<Rightarrow> None | x # xs \<Rightarrow> if lower x = lower c then k xs g else None)"
| "rmatch (OneOf cs) s g k =
     (case s of [] \<Rightarrow> None | x # xs \<Rightarrow> if x \<in> set cs then k xs g else None)"
| "rmatch (Seq r1 r2) s g k = rmatch r1 s g (\<lambda>s' g'. rmatch r2 s' g' k)"
| "rmatch (Alt r1 r2) s g k =
     (case rmatch r1 s g k of Some x \<Rightarrow> Some x | None \<Rightarrow> rmatch r2 s g k)"
| "rmatch (Grp name r) s g k =
     rmatch r s g (\<lambda>s' g'. k s' ((name, take (length s - length s') s) # g'))"

text \<open>
  The regular expressions of the directives, from the table of \<open>TimeRE\<close>:
  \<open>%Y\<close> is \<open>\d\d\d\d\<close>, \<open>%m\<close> is \<open>1[0-2]|0[1-9]|[1-9]\<close>,
  \<open>%d\<close> is \<open>3[0-1]|[1-2]\d|0[1-9]|[1-9]| [1-9]\<close>, \<open>%H\<close> is \<open>2[0-3]|[0-1]\d|\d\<close>,
  \<open>%M\<close> is \<open>[0-5]\d|\d\<close>, \<open>%S\<close> is \<open>6[0-1]|[0-5]\d|\d\<close> and \<open>%f\<close> is \<open>[0-9]{1,6}\<close>
  (as many digits as possible first).
\<close>

definition opt :: "re \<Rightarrow> re" where
  "opt r = Alt r Eps"

definition directive :: "char \<Rightarrow> re option" where
  "directive d =
     (if d = CHR ''Y'' then
        Some (Grp ''Y'' (Seq (OneOf digits) (Seq (OneOf digits) (Seq (OneOf digits) (OneOf digits)))))
      else if d = CHR ''m'' then
        Some (Grp ''m'' (Alt (Seq (Lit CHR ''1'') (OneOf ''012''))
                        (Alt (Seq (Lit CHR ''0'') (OneOf ''123456789''))
                             (OneOf ''123456789''))))
      else if d = CHR ''d'' then
        Some (Grp ''d'' (Alt (Seq (Lit CHR ''3'') (OneOf ''01''))
                        (Alt (Seq (OneOf ''12'') (OneOf digits))
                        (Alt (Seq (Lit CHR ''0'') (OneOf ''123456789''))
                        (Alt (OneOf ''123456789'')
                             (Seq (Lit CHR '' '') (OneOf ''123456789'')))))))
      else if d = CHR ''H'' then
        Some (Grp ''H'' (Alt (Seq (Lit CHR ''2'') (OneOf ''0123''))
                        (Alt (Seq (OneOf ''01'') (OneOf digits)) (OneOf digits))))
      else if d = CHR ''M'' then
        Some (Grp ''M'' (Alt (Seq (OneOf ''012345'') (OneOf digits)) (OneOf digits)))
      else if d = CHR ''S'' then
        Some (Grp ''S'' (Alt (Seq (Lit CHR ''6'') (OneOf ''01''))
                        (Alt (Seq (OneOf ''012345'') (OneOf digits)) (OneOf digits))))
      else if d = CHR ''f'' then
        Some (Grp ''f''
          (Seq (OneOf digits) (opt
          (Seq (OneOf digits) (opt
          (Seq (OneOf digits) (opt
          (Seq (OneOf digits) (opt
          (Seq (OneOf digits) (opt
          (OneOf digits))))))))))))
      else None)"

text \<open>
  The regular expression of a format: a directive gives its group, any other character
  stands for itself. (The formats of the program hold no white space and no directive
  twice, which \<open>_strptime\<close> treats specially.)
\<close>

fun format_regex :: "string \<Rightarrow> re \<Rightarrow> exn + re" where
  "format_regex [] acc = Inr acc"
| "format_regex [c] acc =
     (if c = CHR ''%'' then Inl (ValueError ''stray % in format'') else Inr (Seq acc (Lit c)))"
| "format_regex (c # d # cs) acc =
     (if c = CHR ''%'' then
        (case directive d of
           None \<Rightarrow> Inl (ValueError ''bad directive in format'')
         | Some r \<Rightarrow> format_regex cs (Seq acc r))
      else format_regex (d # cs) (Seq acc (Lit c)))"

text \<open>
  \<open>int\<close> of a group: the value of its decimal digits (\<open>int\<close> skips the blank that the
  group of \<open>%d\<close> may start with).
\<close>

definition py_int :: "string \<Rightarrow> int" where
  "py_int s = foldl (\<lambda>a c. 10 * a + (int (of_char c) - 48)) 0 (filter (\<lambda>c. c \<noteq> CHR '' '') s)"

definition field :: "(string \<times> string) list \<Rightarrow> string \<Rightarrow> int \<Rightarrow> int" where
  "field g name d = (case map_of g name of None \<Rightarrow> d | Some s \<Rightarrow> py_int s)"

record datetime =
  year :: int
  month :: int
  day :: int
  hour :: int
  minute :: int
  second :: int
  microsecond :: int

definition is_leap :: "int \<Rightarrow> bool" where
  "is_leap y = (y mod 4 = 0 \<and> (y mod 100 \<noteq> 0 \<or> y mod 400 = 0))"

definition days_in_month :: "int \<Rightarrow> int \<Rightarrow> int" where
  "days_in_month y m =
     (if m = 2 then (if is_leap y then 29 else 28)
      else if m = 4 \<or> m = 6 \<or> m = 9 \<or> m = 11 then 30 else 31)"

text \<open>The range checks of the constructors \<open>date(y, m, d)\<close> and \<open>datetime(...)\<close>.\<close>

definition make_datetime :: "int \<Rightarrow> int \<Rightarrow> int \<Rightarrow> int \<Rightarrow> int \<Rightarrow> int \<Rightarrow> int \<Rightarrow> exn + datetime" where
  "make_datetime y m d H M S us =
     (if \<not> (1 \<le> y \<and> y \<le> 9999) then Inl (ValueError ''year is out of range'')
      else if \<not> (1 \<le> m \<and> m \<le> 12) then Inl (ValueError ''month must be in 1..12'')
      else if \<not> (1 \<le> d \<and> d \<le> days_in_month y m) then
        Inl (ValueError ''day is out of range for month'')
      else if \<not> (0 \<le> H \<and> H \<le> 23) then Inl (ValueError ''hour must be in 0..23'')
      else if \<not> (0 \<le> M \<and> M \<le> 59) then Inl (ValueError ''minute must be in 0..59'')
      else if \<not> (0 \<le> S \<and> S \<le> 59) then Inl (ValueError ''second must be in 0..59'')
      else if \<not> (0 \<le> us \<and> us \<le> 999999) then
        Inl (ValueError ''microsecond must be in 0..999999'')
      else Inr \<lparr> year = y, month = m, day = d, hour = H, minute = M, second = S,
                 microsecond = us \<rparr>)"

text \<open>
  \<open>datetime.strptime(data_string, format)\<close>. The group of \<open>%f\<close> is padded with zeros
  to six digits before it is read.
\<close>

definition strptime :: "string \<Rightarrow> string \<Rightarrow> exn + datetime" where
  "strptime data_string fmt =
     (case format_regex fmt Eps of
        Inl e \<Rightarrow> Inl e
      | Inr r \<Rightarrow>
          (case rmatch r data_string [] (\<lambda>s g. Some (s, g)) of
             None \<Rightarrow> Inl (ValueError ''time data does not match format'')
           | Some (rest, g) \<Rightarrow>
               if rest \<noteq> [] then Inl (ValueError ''unconverted data remains'')
               else
                 make_datetime (field g ''Y'' 1900) (field g ''m'' 1) (field g ''d'' 1)
                   (field g ''H'' 0) (field g ''M'' 0) (field g ''S'' 0)
                   (case map_of g ''f'' of
                      None \<Rightarrow> 0
                    | Some s \<Rightarrow> py_int (s @ replicate (6 - length s) CHR ''0''))))"

text \<open>
  \<open>validate_rfc3339\<close>: the loop over the two formats. Only \<open>ValueError\<close> is caught; any
  other exception of \<open>strptime\<close> would leave the function.
\<close>

fun try_formats :: "string \<Rightarrow> string list \<Rightarrow> exn + bool" where
  "try_formats ts [] = Inr False"
| "try_formats ts (fmt # fmts) =
     (case strptime ts fmt of
        Inr dt \<Rightarrow> Inr True
      | Inl (ValueError msg) \<Rightarrow> try_formats ts fmts
      | Inl e \<Rightarrow> Inl e)"

definition validate_rfc3339 :: "string \<Rightarrow> exn + bool" where
  "validate_rfc3339 ts = try_formats ts [''%Y-%m-%dT%H:%M:%S.%fZ'', ''%Y-%m-%dT%H:%M:%SZ'']"

text \<open>
  The layouts of the spec, read letter by letter: each of the letters \<open>Y\<close>, \<open>M\<close>, \<open>D\<close>,
  \<open>H\<close>, \<open>S\<close> and \<open>f\<close> of a layout stands for one decimal digit, every other character
  for itself.
\<close>

fun matches_layout :: "string \<Rightarrow> string \<Rightarrow> bool" where
  "matches_layout [] [] = True"
| "matches_layout (l # ls) (c # cs) =
     ((if l \<in> set ''YMDHSf'' then is_digit c else c = l) \<and> matches_layout ls cs)"
| "matches_layout ls cs = False"

text \<open>
  Time stamps in the layouts of the spec, built from their fields: four digits for the
  year and two for every other field.
\<close>

definition digit_char :: "nat \<Rightarrow> char" where
  "digit_char n = digits ! n"

definition pad2 :: "nat \<Rightarrow> string" where
  "pad2 v = [digit_char (v div 10), digit_char (v mod 10)]"

definition pad4 :: "nat \<Rightarrow> string" where
  "pad4 v = [digit_char (v div 1000), digit_char (v div 100 mod 10),
             digit_char (v div 10 mod 10), digit_char (v mod 10)]"

definition stamp :: "nat \<Rightarrow> nat \<Rightarrow> nat \<Rightarrow> nat \<Rightarrow> nat \<Rightarrow> nat \<Rightarrow> string" where
  "stamp y m d H M S =
     pad4 y @ ''-'' @ pad2 m @ ''-'' @ pad2 d @ ''T'' @ pad2 H @ '':'' @ pad2 M @ '':'' @ pad2 S"

definition valid_fields :: "nat \<Rightarrow> nat \<Rightarrow> nat \<Rightarrow> nat \<Rightarrow> nat \<Rightarrow> nat \<Rightarrow> bool" where
  "valid_fields y m d H M S =
     (1 \<le> y \<and> y \<le> 9999 \<and> 1 \<le> m \<and> m \<le> 12 \<and> 1 \<le> d \<and>
      int d \<le> days_in_month (int y) (int m) \<and> H \<le> 23 \<and> M \<le> 59 \<and> S \<le> 59)"

section \<open>What a trace shows\<close>

fun update_target :: "event \<Rightarrow> string list" where
  "update_target (FilesUpdate file_id body flds) = [file_id]"
| "update_target e = []"

definition update_targets :: "trace \<Rightarrow> string list" where
  "update_targets tr = concat (map update_target tr)"

fun list_target :: "event \<Rightarrow> string list" where
  "list_target (FilesList parent_id page_token) = [parent_id]"
| "list_target e = []"

definition list_targets :: "trace \<Rightarrow> string list" where
  "list_targets tr = concat (map list_target tr)"

fun expansion :: "event \<Rightarrow> string list" where
  "expansion (FilesList parent_id None) = [parent_id]"
| "expansion e = []"

definition expansions :: "trace \<Rightarrow> string list" where
  \<comment> \<open>the containers whose listing was started (the request for a first page)\<close>
  "expansions tr = concat (map expansion tr)"

fun sleep_duration :: "event \<Rightarrow> rat list" where
  "sleep_duration (Sleep s) = [s]"
| "sleep_duration e = []"

definition sleeps :: "trace \<Rightarrow> rat list" where
  "sleeps tr = concat (map sleep_duration tr)"

fun mutation_request :: "event \<Rightarrow> string list" where
  "mutation_request (Log (LogUpdatingFolder folder_id new_time)) = [folder_id]"
| "mutation_request (Log (LogFolderChild cname cid)) = [cid]"
| "mutation_request (Log (LogFile cname cid)) = [cid]"
| "mutation_request e = []"

definition mutation_requests :: "trace \<Rightarrow> string list" where
  \<comment> \<open>the objects handed to \<open>retryable_update\<close>, in order: each call is announced by a log line\<close>
  "mutation_requests tr = concat (map mutation_request tr)"

fun is_log :: "event \<Rightarrow> bool" where
  "is_log (Log l) = True"
| "is_log e = False"

definition actions :: "trace \<Rightarrow> trace" where
  \<comment> \<open>the requests and sleeps of a trace, without its log lines\<close>
  "actions tr = filter (\<lambda>e. \<not> is_log e) tr"

text \<open>
  The failures the spec calls transient: an \<open>HttpError\<close> whose status is 429, 500 or
  503.
\<close>

definition transient_failure :: "exn \<Rightarrow> bool" where
  "transient_failure e =
     (case e of HttpError status \<Rightarrow> status \<in> {Some 429, Some 500, Some 503} | _ \<Rightarrow> False)"

text \<open>
  What a listing holds: the identifiers of its entries, and those of its folders (the
  entries whose \<open>mimeType\<close> is \<open>FOLDER_MIME\<close>).
\<close>

definition child_ids :: "dict list \<Rightarrow> string list" where
  "child_ids cs = concat (map (\<lambda>c. case map_of c ''id'' of None \<Rightarrow> [] | Some cid \<Rightarrow> [cid]) cs)"

definition is_folder :: "dict \<Rightarrow> bool" where
  "is_folder c = (map_of c ''mimeType'' = Some FOLDER_MIME)"

definition folder_ids :: "dict list \<Rightarrow> string list" where
  "folder_ids cs = child_ids (filter is_folder cs)"

section \<open>Example services\<close>

text \<open>
  A service whose listings never change and fit one page, whose updates all succeed, and
  a random number generator that always draws \<open>1 / 2\<close>.
\<close>

definition static_env :: "(string \<Rightarrow> dict list) \<Rightarrow> env" where
  "static_env kids =
     \<lparr> files_update = (\<lambda>tr file_id body flds. Inr ((''id'', file_id) # body)),
       files_list = (\<lambda>tr parent_id page_token. Inr \<lparr> files = Some (kids parent_id), nextPageToken = None \<rparr>),
       random_random = (\<lambda>tr. 1 / 2) \<rparr>"

text \<open>The same service, with every update answered by the HTTP error status \<open>st\<close>.\<close>

definition failing_env :: "int \<Rightarrow> env" where
  "failing_env st = (static_env (\<lambda>p. [])) \<lparr> files_update := (\<lambda>tr file_id body flds. Inl (HttpError (Some st))) \<rparr>"

text \<open>A service that answers the first two update requests with 429 and the later ones with success.\<close>

definition flaky_env :: env where
  "flaky_env = (static_env (\<lambda>p. []))
     \<lparr> files_update := (\<lambda>tr file_id body flds.
          if length (update_targets tr) < 2 then Inl (HttpError (Some 429)) else Inr ((''id'', file_id) # body)) \<rparr>"

text \<open>Entries of a listing, for the examples: a folder and a plain file named by their identifier.\<close>

definition folder_entry :: "string \<Rightarrow> dict" where
  "folder_entry i = [(''id'', i), (''name'', i), (''mimeType'', FOLDER_MIME)]"

definition file_entry :: "string \<Rightarrow> dict" where
  "file_entry i = [(''id'', i), (''name'', i), (''mimeType'', ''text/plain'')]"

text \<open>
  The scenario of the spec: root \<open>R\<close> holds the folder \<open>folderA\<close> and the file \<open>file1\<close>,
  \<open>folderA\<close> holds the file \<open>file2\<close>.
\<close>

definition scenario_kids :: "string \<Rightarrow> dict list" where
  "scenario_kids p =
     (if p = ''R'' then [folder_entry ''folderA'', file_entry ''file1'']
      else if p = ''folderA'' then [file_entry ''file2'']
      else [])"


text \<open>A run of the program on the scenario of the spec, at the time stamp \<open>T\<close>.\<close>

definition scenario_run :: "bool \<Rightarrow> bool \<Rightarrow> trace \<times> string set \<times> (exn + unit) option" where
  "scenario_run recursive dry_run =
     update_folder_and_contents 10 (static_env scenario_kids) ''R'' ''T'' recursive dry_run"

text \<open>
  The pages of a listing, as the spec describes them: starting from the trace \<open>tr\<close> with
  the continuation token \<open>page_token\<close>, the service delivers the pages \<open>rs\<close>, one
  request each, every page but the last naming the token of the next request, and the
  last page naming none (or the empty string); \<open>tr'\<close> is the trace after the last
  request.
\<close>

definition page_files :: "list_response \<Rightarrow> dict list" where
  "page_files response = (case files response of None \<Rightarrow> [] | Some fs \<Rightarrow> fs)"

inductive page_chain ::
  "env \<Rightarrow> string \<Rightarrow> trace \<Rightarrow> string option \<Rightarrow> list_response list \<Rightarrow> trace \<Rightarrow> bool"
where
  last_page:
    "files_list sv tr parent_id page_token = Inr response \<Longrightarrow>
     nextPageToken response = None \<or> nextPageToken response = Some [] \<Longrightarrow>
     page_chain sv parent_id tr page_token [response] (tr @ [FilesList parent_id page_token])"
| next_page:
    "files_list sv tr parent_id page_token = Inr response \<Longrightarrow>
     nextPageToken response = Some t \<Longrightarrow> t \<noteq> [] \<Longrightarrow>
     page_chain sv parent_id (tr @ [FilesList parent_id page_token]) (Some t) rs tr' \<Longrightarrow>
     page_chain sv parent_id tr page_token (response # rs) tr'"

text \<open>A service that lists every container in three pages of one file each.\<close>

definition paged_env :: env where
  "paged_env = (static_env (\<lambda>p. []))
     \<lparr> files_list := (\<lambda>tr parent_id page_token.
          if page_token = None then
            Inr \<lparr> files = Some [file_entry ''a''], nextPageToken = Some ''t1'' \<rparr>
          else if page_token = Some ''t1'' then
            Inr \<lparr> files = Some [file_entry ''b''], nextPageToken = Some ''t2'' \<rparr>
          else Inr \<lparr> files = Some [file_entry ''c''], nextPageToken = None \<rparr>) \<rparr>"

text \<open>A service whose second page of every listing fails with the HTTP status 500.\<close>

definition broken_page_env :: env where
  "broken_page_env = (static_env (\<lambda>p. []))
     \<lparr> files_list := (\<lambda>tr parent_id page_token.
          if page_token = None then
            Inr \<lparr> files = Some [file_entry ''a''], nextPageToken = Some ''t1'' \<rparr>
          else Inl (HttpError (Some 500))) \<rparr>"

text \<open>The listing requests of a trace, with their continuation tokens.\<close>

fun is_list_request :: "event \<Rightarrow> bool" where
  "is_list_request (FilesList parent_id page_token) = True"
| "is_list_request e = False"

definition list_requests :: "trace \<Rightarrow> trace" where
  "list_requests tr = filter is_list_request tr"

text \<open>
  A service whose listings do not change during the run: the answer to a listing
  request depends on the container and the token only, not on what happened before.
\<close>

definition static_listing :: "env \<Rightarrow> bool" where
  "static_listing sv = (\<forall>tr tr' parent_id page_token.
     files_list sv tr parent_id page_token = files_list sv tr' parent_id page_token)"

text \<open>
  The steps of a traversal that its order is about: the expansion of a container (the
  request for the first page of its listing, which discovers its children) and the
  handing of an object to the mutator (announced by a log line).
\<close>

datatype step = Expanded string | Mutated string

fun step_of :: "event \<Rightarrow> step list" where
  "step_of (FilesList parent_id None) = [Expanded parent_id]"
| "step_of (Log (LogUpdatingFolder folder_id new_time)) = [Mutated folder_id]"
| "step_of (Log (LogFolderChild cname cid)) = [Mutated cid]"
| "step_of (Log (LogFile cname cid)) = [Mutated cid]"
| "step_of e = []"

definition steps :: "trace \<Rightarrow> step list" where
  "steps tr = concat (map step_of tr)"

text \<open>
  The children of a container, as \<open>list_children\<close> returns them within \<open>n\<close> requests
  when nothing has happened yet (no children when it does not return a list).
\<close>

definition listing :: "nat \<Rightarrow> env \<Rightarrow> string \<Rightarrow> dict list" where
  "listing n sv parent_id =
     (case snd (list_children n sv parent_id []) of
        Some (Inr children) \<Rightarrow> children
      | _ \<Rightarrow> [])"

text \<open>
  Breadth-first order, level by level, written from the spec. \<open>expand_level\<close> goes
  through the containers of one depth in order: a container expanded before is skipped;
  otherwise it is expanded and its children are mutated in the order of its listing, and
  its folders join the next level when the run is recursive. It returns the steps taken,
  the next level and the visited set. \<open>bfs_levels d\<close> lists the steps of the first \<open>d\<close>
  levels, one list for each level, starting from the given level.
\<close>

fun expand_level ::
  "(string \<Rightarrow> dict list) \<Rightarrow> bool \<Rightarrow> string list \<Rightarrow> string set
     \<Rightarrow> step list \<times> string list \<times> string set"
where
  "expand_level kids recursive [] visited = ([], [], visited)"
| "expand_level kids recursive (c # level) visited =
     (if c \<in> visited then expand_level kids recursive level visited
      else
        (case expand_level kids recursive level (insert c visited) of
           (ss, next_level, visited') \<Rightarrow>
             (Expanded c # map Mutated (child_ids (kids c)) @ ss,
              (if recursive then folder_ids (kids c) else []) @ next_level,
              visited')))"

fun bfs_levels ::
  "nat \<Rightarrow> (string \<Rightarrow> dict list) \<Rightarrow> bool \<Rightarrow> string list \<Rightarrow> string set \<Rightarrow> step list list"
where
  "bfs_levels 0 kids recursive level visited = []"
| "bfs_levels (Suc d) kids recursive level visited =
     (if level = [] then []
      else
        (case expand_level kids recursive level visited of
           (ss, next_level, visited') \<Rightarrow> ss # bfs_levels d kids recursive next_level visited'))"

section \<open>Properties of traces\<close>

lemma update_targets_simps [simp]:
  "update_targets [] = []"
  "update_targets (e # tr) = update_target e @ update_targets tr"
  "update_targets (tr @ tr') = update_targets tr @ update_targets tr'"
  by (simp_all add: update_targets_def)

lemma list_targets_simps [simp]:
  "list_targets [] = []"
  "list_targets (e # tr) = list_target e @ list_targets tr"
  "list_targets (tr @ tr') = list_targets tr @ list_targets tr'"
  by (simp_all add: list_targets_def)

lemma expansions_simps [simp]:
  "expansions [] = []"
  "expansions (e # tr) = expansion e @ expansions tr"
  "expansions (tr @ tr') = expansions tr @ expansions tr'"
  by (simp_all add: expansions_def)

lemma sleeps_simps [simp]:
  "sleeps [] = []"
  "sleeps (e # tr) = sleep_duration e @ sleeps tr"
  "sleeps (tr @ tr') = sleeps tr @ sleeps tr'"
  by (simp_all add: sleeps_def)

lemma mutation_requests_simps [simp]:
  "mutation_requests [] = []"
  "mutation_requests (e # tr) = mutation_request e @ mutation_requests tr"
  "mutation_requests (tr @ tr') = mutation_requests tr @ mutation_requests tr'"
  by (simp_all add: mutation_requests_def)

lemma actions_simps [simp]:
  "actions [] = []"
  "actions (e # tr) = (if is_log e then actions tr else e # actions tr)"
  "actions (tr @ tr') = actions tr @ actions tr'"
  by (simp_all add: actions_def)

section \<open>Rounding to a double\<close>

lemma round_half_even_ge: "of_int k \<le> q \<Longrightarrow> k \<le> round_half_even q"
proof -
  assume "of_int k \<le> q"
  then have "k \<le> \<lfloor>q\<rfloor>" by (simp add: le_floor_iff)
  then show ?thesis unfolding round_half_even_def Let_def by auto
qed

lemma round_half_even_le: "q \<le> of_int k \<Longrightarrow> round_half_even q \<le> k"
proof -
  assume a: "q \<le> of_int k"
  then have fl: "\<lfloor>q\<rfloor> \<le> k" by (simp add: floor_le_iff) 
  show ?thesis
  proof (cases "\<lfloor>q\<rfloor> = k")
    case True
    then have "of_int k \<le> q" using of_int_floor_le[of q] by simp
    with a have "q = of_int k" by simp
    then show ?thesis by (simp add: round_half_even_def)
  next
    case False
    with fl have "\<lfloor>q\<rfloor> + 1 \<le> k" by simp
    then show ?thesis unfolding round_half_even_def Let_def by auto
  qed
qed

lemma round_half_even_down:
  "of_int k \<le> q \<Longrightarrow> q < of_int k + 1 / 2 \<Longrightarrow> round_half_even q = k"
proof -
  assume a: "of_int k \<le> q" "q < of_int k + 1 / 2"
  then have "\<lfloor>q\<rfloor> = k" by (intro floor_unique) auto
  with a show ?thesis by (simp add: round_half_even_def)
qed

lemma round_half_even_near: "\<bar>of_int (round_half_even q) - q\<bar> \<le> 1 / 2"
proof -
  have "of_int \<lfloor>q\<rfloor> \<le> q" "q < of_int \<lfloor>q\<rfloor> + 1" by linarith+
  then show ?thesis unfolding round_half_even_def Let_def by auto
qed

text \<open>
  The rounded sum stays between \<open>2 ^ a\<close> and \<open>2 ^ a + 1\<close>, both of which are doubles
  or lie beyond the next one.
\<close>

lemma nearest_double_bounds:
  fixes r :: rat
  assumes "0 \<le> r" "r < 1"
  shows "2 ^ a \<le> nearest_double (int a) (2 ^ a + r) \<and>
         nearest_double (int a) (2 ^ a + r) \<le> 2 ^ a + 1"
proof (cases "a \<le> 52")
  case True
  define u :: rat where "u = 1 / 2 ^ (52 - a)"
  have u: "power_int 2 (int a - 52) = u"
    using True
    by (cases "a = 52")
      (auto simp: u_def power_int_def inverse_eq_divide power_divide nat_diff_distrib')
  have upos: "0 < u" by (simp add: u_def)
  have p: "(2::rat) ^ a * 2 ^ (52 - a) = 2 ^ 52" using True by (simp flip: power_add)
  have lo: "(2::rat) ^ a = of_int (2 ^ 52) * u" using p by (simp add: u_def field_simps)
  have hi: "(2::rat) ^ a + 1 = of_int (2 ^ 52 + 2 ^ (52 - a)) * u"
    using p by (simp add: u_def field_simps)
  let ?q = "(2 ^ a + r) / u"
  have "of_int (2 ^ 52) \<le> ?q" using assms upos lo by (simp add: field_simps)
  then have 1: "2 ^ 52 \<le> round_half_even ?q" by (rule round_half_even_ge)
  have "?q \<le> of_int (2 ^ 52 + 2 ^ (52 - a))" using assms upos hi by (simp add: field_simps)
  then have 2: "round_half_even ?q \<le> 2 ^ 52 + 2 ^ (52 - a)" by (rule round_half_even_le)
  from 1 have "(of_int (2 ^ 52) :: rat) \<le> of_int (round_half_even ?q)"
    by (simp only: of_int_le_iff)
  then have "of_int (2 ^ 52) * u \<le> of_int (round_half_even ?q) * u"
    using upos by (intro mult_right_mono) simp_all
  moreover from 2 have "(of_int (round_half_even ?q) :: rat) \<le> of_int (2 ^ 52 + 2 ^ (52 - a))"
    by (simp only: of_int_le_iff)
  then have "of_int (round_half_even ?q) * u \<le> of_int (2 ^ 52 + 2 ^ (52 - a)) * u"
    using upos by (intro mult_right_mono) simp_all
  ultimately show ?thesis unfolding nearest_double_def u lo[symmetric] hi[symmetric] by simp
next
  case False
  define u :: rat where "u = 2 ^ (a - 52)"
  have u: "power_int 2 (int a - 52) = u"
    using False by (auto simp: u_def power_int_def nat_diff_distrib')
  have upos: "0 < u" by (simp add: u_def)
  have u2: "2 \<le> u" using False self_le_power[of "2::rat" "a - 52"] by (simp add: u_def)
  have "(2::rat) ^ (52 + (a - 52)) = 2 ^ 52 * 2 ^ (a - 52)" by (rule power_add)
  moreover have "52 + (a - 52) = a" using False by simp
  ultimately have lo: "(2::rat) ^ a = of_int (2 ^ 52) * u" by (simp add: u_def)
  let ?q = "(2 ^ a + r) / u"
  have q: "?q = of_int (2 ^ 52) + r / u" using upos lo by (simp add: field_simps)
  have "r / u < 1 / 2" using assms u2 upos by (simp add: field_simps)
  moreover have "0 \<le> r / u" using assms upos by simp
  ultimately have "round_half_even ?q = 2 ^ 52"
    unfolding q by (intro round_half_even_down) auto
  then show ?thesis unfolding nearest_double_def u by (simp add: lo)
qed

text \<open>The rounded value is within half a spacing of the exact one.\<close>

lemma nearest_double_near:
  fixes x :: rat
  shows "\<bar>nearest_double e x - x\<bar> \<le> power_int 2 (e - 53)"
proof -
  define u :: rat where "u = power_int 2 (e - 52)"
  have upos: "0 < u" by (simp add: u_def)
  have half: "power_int 2 (e - 53) = u / (2::rat)"
    unfolding u_def using power_int_add[of "2::rat" "e - 53" 1] by (simp add: field_simps)
  have "\<bar>of_int (round_half_even (x / u)) - x / u\<bar> \<le> 1 / 2" by (rule round_half_even_near)
  then have "\<bar>of_int (round_half_even (x / u)) - x / u\<bar> * u \<le> 1 / 2 * u"
    using upos by (intro mult_right_mono) auto
  moreover have "\<bar>of_int (round_half_even (x / u)) - x / u\<bar> * u
      = \<bar>of_int (round_half_even (x / u)) * u - x\<bar>"
  proof -
    have "\<bar>of_int (round_half_even (x / u)) - x / u\<bar> * u
        = \<bar>(of_int (round_half_even (x / u)) - x / u) * u\<bar>"
      using upos by (simp add: abs_mult)
    also have "(of_int (round_half_even (x / u)) - x / u) * u
        = of_int (round_half_even (x / u)) * u - x"
      using upos by (simp add: left_diff_distrib)
    finally show ?thesis .
  qed
  ultimately show ?thesis unfolding nearest_double_def half u_def[symmetric] by simp
qed

lemma sleep_for_bounds:
  assumes "attempt < 1024" "0 \<le> r" "r < 1"
  shows "\<exists>s. sleep_for attempt r = Inr s \<and> 2 ^ attempt \<le> s \<and> s \<le> 2 ^ attempt + 1 \<and>
           \<bar>s - (2 ^ attempt + r)\<bar> \<le> power_int 2 (int attempt - 53)"
  using assms nearest_double_bounds[of r attempt] nearest_double_near[of "int attempt" "2 ^ attempt + r"]
  by (simp add: sleep_for_def backoff_base_def)

section \<open>Properties of the retrying mutator\<close>

lemma retry_attempts_success:
  "files_update sv tr file_id body flds = Inr resp \<Longrightarrow>
   retry_attempts sv file_id body flds max_retries (attempt # rest) tr =
     (tr @ [FilesUpdate file_id body flds], Inr (Some resp))"
  by simp

lemma retry_attempts_fatal:
  "files_update sv tr file_id body flds = Inl e \<Longrightarrow> \<not> transient_failure e \<Longrightarrow>
   \<exists>logs. retry_attempts sv file_id body flds max_retries (attempt # rest) tr =
       (tr @ FilesUpdate file_id body flds # map Log logs, Inl e)"
  by (cases e) (auto simp: transient_failure_def intro: exI[of _ "[]"] exI[of _ "[_]"])

lemma retry_attempts_transient:
  "files_update sv tr file_id body flds = Inl e \<Longrightarrow> transient_failure e \<Longrightarrow> attempt < 1024 \<Longrightarrow>
   \<exists>st s. e = HttpError st \<and>
     sleep_for attempt (random_random sv (tr @ [FilesUpdate file_id body flds])) = Inr s \<and>
     retry_attempts sv file_id body flds max_retries (attempt # rest) tr =
     retry_attempts sv file_id body flds max_retries rest
       (tr @ [FilesUpdate file_id body flds,
              Log (LogTransient st (int attempt + 1) max_retries s), Sleep s])"
  by (cases e) (auto simp: transient_failure_def sleep_for_def Let_def)

lemma retry_attempts_overflow:
  "files_update sv tr file_id body flds = Inl e \<Longrightarrow> transient_failure e \<Longrightarrow> 1024 \<le> attempt \<Longrightarrow>
   retry_attempts sv file_id body flds max_retries (attempt # rest) tr =
     (tr @ [FilesUpdate file_id body flds],
      Inl (OverflowError ''int too large to convert to float''))"
  by (cases e) (auto simp: transient_failure_def sleep_for_def Let_def)

lemma expansions_no_list: "list_targets evs = [] \<Longrightarrow> expansions evs = []"
proof (induction evs)
  case Nil
  then show ?case by simp
next
  case (Cons e evs)
  then show ?case by (cases e) auto
qed

lemma retry_attempts_trace:
  "retry_attempts sv file_id body flds max_retries as tr = (tr', r) \<Longrightarrow>
   \<exists>evs. tr' = tr @ evs \<and> list_targets evs = [] \<and> mutation_requests evs = [] \<and>
     update_targets evs = replicate (length (update_targets evs)) file_id \<and>
     length (update_targets evs) \<le> length as \<and>
     length (sleeps evs) \<le> length (update_targets evs) \<and>
     (\<forall>x. r = Inr x \<longrightarrow> x \<noteq> None \<and> update_targets evs \<noteq> [])"
proof (induction as arbitrary: tr)
  case Nil
  then show ?case by auto
next
  case (Cons a as)
  show ?case
  proof (cases "files_update sv tr file_id body flds")
    case (Inr resp)
    with Cons.prems show ?thesis by auto
  next
    case (Inl e)
    show ?thesis
    proof (cases "transient_failure e \<and> a < 1024")
      case True
      with Inl retry_attempts_transient[of sv tr file_id body flds e a max_retries as]
      obtain st s where
        eq: "retry_attempts sv file_id body flds max_retries (a # as) tr =
          retry_attempts sv file_id body flds max_retries as
            (tr @ [FilesUpdate file_id body flds, Log (LogTransient st (int a + 1) max_retries s), Sleep s])"
        by blast
      with Cons.prems Cons.IH[of "tr @ [FilesUpdate file_id body flds, Log (LogTransient st (int a + 1) max_retries s), Sleep s]"]
      obtain evs where "tr' = (tr @ [FilesUpdate file_id body flds, Log (LogTransient st (int a + 1) max_retries s), Sleep s]) @ evs"
        "list_targets evs = []" "mutation_requests evs = []"
        "update_targets evs = replicate (length (update_targets evs)) file_id"
        "length (update_targets evs) \<le> length as" "length (sleeps evs) \<le> length (update_targets evs)"
        "\<forall>x. r = Inr x \<longrightarrow> x \<noteq> None \<and> update_targets evs \<noteq> []"
        by auto
      then show ?thesis
        by (intro exI[of _ "[FilesUpdate file_id body flds, Log (LogTransient st (int a + 1) max_retries s), Sleep s] @ evs"]) auto
    next
      case False
      with Inl Cons.prems show ?thesis
        by (cases e) (auto simp: transient_failure_def sleep_for_def Let_def split: if_splits)
    qed
  qed
qed

lemma retry_attempts_all_transient:
  assumes "\<forall>h. \<exists>e. files_update sv h file_id body flds = Inl e \<and> transient_failure e"
    and "\<forall>a\<in>set as. a < 1024"
  shows "\<exists>ss. length ss = length as \<and>
     (\<exists>evs. retry_attempts sv file_id body flds max_retries as tr =
        (tr @ evs, Inl (RuntimeError ''Max retries exceeded for file update.'')) \<and>
      actions evs = concat (map (\<lambda>s. [FilesUpdate file_id body flds, Sleep s]) ss))"
  using assms(2)
proof (induction as arbitrary: tr)
  case Nil
  then show ?case by simp
next
  case (Cons a as)
  from assms(1) obtain e where e: "files_update sv tr file_id body flds = Inl e" "transient_failure e"
    by blast
  from Cons.prems have a: "a < 1024" by simp
  from retry_attempts_transient[OF e a, of max_retries as]
  obtain st s where
    eq: "retry_attempts sv file_id body flds max_retries (a # as) tr =
          retry_attempts sv file_id body flds max_retries as
            (tr @ [FilesUpdate file_id body flds, Log (LogTransient st (int a + 1) max_retries s), Sleep s])"
    by blast
  let ?tr = "tr @ [FilesUpdate file_id body flds, Log (LogTransient st (int a + 1) max_retries s), Sleep s]"
  from Cons.IH[of ?tr] Cons.prems
  obtain ss evs where ih: "length ss = length as"
    "retry_attempts sv file_id body flds max_retries as ?tr =
        (?tr @ evs, Inl (RuntimeError ''Max retries exceeded for file update.''))"
    "actions evs = concat (map (\<lambda>s. [FilesUpdate file_id body flds, Sleep s]) ss)"
    by auto
  show ?case
    by (rule exI[of _ "s # ss"], rule conjI, simp add: ih(1),
        rule exI[of _ "[FilesUpdate file_id body flds, Log (LogTransient st (int a + 1) max_retries s), Sleep s] @ evs"])
       (simp add: eq ih del: retry_attempts.simps)
qed

lemma retry_attempts_sleeps:
  assumes "\<forall>h. 0 \<le> random_random sv h \<and> random_random sv h < 1"
  shows "\<exists>evs. fst (retry_attempts sv file_id body flds max_retries as tr) = tr @ evs \<and>
     length (sleeps evs) \<le> length as \<and>
     (\<forall>i<length (sleeps evs). 2 ^ (as ! i) \<le> sleeps evs ! i \<and> sleeps evs ! i \<le> 2 ^ (as ! i) + 1)"
proof (induction as arbitrary: tr)
  case Nil
  then show ?case by simp
next
  case (Cons a as)
  show ?case
  proof (cases "files_update sv tr file_id body flds")
    case (Inr resp)
    then show ?thesis by simp
  next
    case (Inl e)
    show ?thesis
    proof (cases "transient_failure e \<and> a < 1024")
      case True
      with Inl retry_attempts_transient[of sv tr file_id body flds e a max_retries as]
      obtain st s where
        s: "sleep_for a (random_random sv (tr @ [FilesUpdate file_id body flds])) = Inr s" and
        eq: "retry_attempts sv file_id body flds max_retries (a # as) tr =
          retry_attempts sv file_id body flds max_retries as
            (tr @ [FilesUpdate file_id body flds, Log (LogTransient st (int a + 1) max_retries s), Sleep s])"
        by blast
      let ?tr = "tr @ [FilesUpdate file_id body flds, Log (LogTransient st (int a + 1) max_retries s), Sleep s]"
      from assms True s sleep_for_bounds[of a "random_random sv (tr @ [FilesUpdate file_id body flds])"]
      have sb: "2 ^ a \<le> s \<and> s \<le> 2 ^ a + 1" by auto
      from Cons.IH[of ?tr] obtain evs where ih:
        "fst (retry_attempts sv file_id body flds max_retries as ?tr) = ?tr @ evs"
        "length (sleeps evs) \<le> length as"
        "\<forall>i<length (sleeps evs). 2 ^ (as ! i) \<le> sleeps evs ! i \<and> sleeps evs ! i \<le> 2 ^ (as ! i) + 1"
        by blast
      have "\<forall>i<length (s # sleeps evs). 2 ^ ((a # as) ! i) \<le> (s # sleeps evs) ! i \<and> (s # sleeps evs) ! i \<le> 2 ^ ((a # as) ! i) + 1"
      proof (intro allI impI)
        fix i assume "i < length (s # sleeps evs)"
        then show "2 ^ ((a # as) ! i) \<le> (s # sleeps evs) ! i \<and> (s # sleeps evs) ! i \<le> 2 ^ ((a # as) ! i) + 1"
          using sb ih(3) by (cases i) auto
      qed
      then show ?thesis
        by (intro exI[of _ "[FilesUpdate file_id body flds, Log (LogTransient st (int a + 1) max_retries s), Sleep s] @ evs"])
          (simp add: eq ih del: retry_attempts.simps)
    next
      case False
      with Inl show ?thesis
        by (cases e) (auto simp: transient_failure_def sleep_for_def Let_def split: if_splits)
    qed
  qed
qed

section \<open>Properties of the lister and the traversal\<close>

lemma child_ids_simps [simp]:
  "child_ids [] = []"
  "child_ids (c # cs) = (case map_of c ''id'' of None \<Rightarrow> [] | Some cid \<Rightarrow> [cid]) @ child_ids cs"
  by (simp_all add: child_ids_def)

lemma folder_ids_simps [simp]:
  "folder_ids [] = []"
  "folder_ids (c # cs) = (if is_folder c then (case map_of c ''id'' of None \<Rightarrow> [] | Some cid \<Rightarrow> [cid]) else []) @ folder_ids cs"
  by (simp_all add: folder_ids_def)

lemma is_folder_iff:
  "is_folder c \<longleftrightarrow> (case map_of c ''mimeType'' of None \<Rightarrow> [] | Some v \<Rightarrow> v) = FOLDER_MIME"
  by (auto simp: is_folder_def FOLDER_MIME_def split: option.splits)

lemma retryable_update_trace:
  assumes "retryable_update sv file_id body flds dry_run max_retries tr = (tr', r)"
  shows "\<exists>evs. tr' = tr @ evs \<and> list_targets evs = [] \<and> mutation_requests evs = [] \<and>
     set (update_targets evs) \<subseteq> {file_id} \<and>
     (dry_run \<longrightarrow> update_targets evs = [] \<and> sleeps evs = [] \<and> r = Inr None) \<and>
     (\<not> dry_run \<longrightarrow> (\<forall>x. r = Inr x \<longrightarrow> update_targets evs \<noteq> []))"
proof (cases dry_run)
  case True
  with assms show ?thesis by (auto simp: retryable_update_def)
next
  case False
  with assms have "retry_attempts sv file_id body flds max_retries [0..<nat max_retries] tr = (tr', r)"
    by (simp add: retryable_update_def)
  from retry_attempts_trace[OF this] obtain evs where evs: "tr' = tr @ evs" "list_targets evs = []"
    "mutation_requests evs = []"
    "update_targets evs = replicate (length (update_targets evs)) file_id"
    "\<forall>x. r = Inr x \<longrightarrow> x \<noteq> None \<and> update_targets evs \<noteq> []"
    by blast
  from evs(4) have "set (update_targets evs) \<subseteq> {file_id}"
    by (metis set_replicate_conv_if empty_subsetI subset_refl)
  with evs False show ?thesis by blast
qed

lemma list_children_loop_trace:
  "list_children_loop n sv parent_id acc page_token tr = (tr', r) \<Longrightarrow>
   \<exists>toks. tr' = tr @ (if n = 0 then [] else FilesList parent_id page_token # map (\<lambda>t. FilesList parent_id (Some t)) toks)"
proof (induction n arbitrary: acc page_token tr)
  case 0
  then show ?case by simp
next
  case (Suc n)
  show ?case
  proof (cases "files_list sv tr parent_id page_token")
    case (Inl e)
    with Suc.prems show ?thesis by (auto intro: exI[of _ "[]"])
  next
    case (Inr response)
    show ?thesis
    proof (cases "nextPageToken response = None \<or> nextPageToken response = Some []")
      case True
      with Inr Suc.prems show ?thesis by (auto simp: Let_def intro: exI[of _ "[]"])
    next
      case False
      then obtain t where t: "nextPageToken response = Some t" "t \<noteq> []" by auto
      with Inr Suc.prems have
        "list_children_loop n sv parent_id (acc @ (case files response of None \<Rightarrow> [] | Some fs \<Rightarrow> fs)) (Some t)
           (tr @ [FilesList parent_id page_token]) = (tr', r)"
        by (simp add: Let_def)
      from Suc.IH[OF this] obtain toks where
        "tr' = (tr @ [FilesList parent_id page_token]) @
           (if n = 0 then [] else FilesList parent_id (Some t) # map (\<lambda>t. FilesList parent_id (Some t)) toks)"
        by blast
      then show ?thesis
        by (cases "n = 0") (auto intro: exI[of _ "[]"] exI[of _ "t # toks"])
    qed
  qed
qed

lemma list_children_trace:
  assumes "list_children (Suc n) sv parent_id tr = (tr', r)"
  shows "\<exists>evs. tr' = tr @ evs \<and> expansions evs = [parent_id] \<and> set (list_targets evs) = {parent_id} \<and>
     update_targets evs = [] \<and> sleeps evs = [] \<and> mutation_requests evs = []"
proof -
  from assms list_children_loop_trace[of "Suc n" sv parent_id "[]" None tr tr' r]
  obtain toks where "tr' = tr @ FilesList parent_id None # map (\<lambda>t. FilesList parent_id (Some t)) toks"
    by (auto simp: list_children_def)
  moreover have "expansions (map (\<lambda>t. FilesList parent_id (Some t)) toks) = []"
    "set (list_targets (map (\<lambda>t. FilesList parent_id (Some t)) toks)) \<subseteq> {parent_id}"
    "update_targets (map (\<lambda>t. FilesList parent_id (Some t)) toks) = []"
    "sleeps (map (\<lambda>t. FilesList parent_id (Some t)) toks) = []"
    "mutation_requests (map (\<lambda>t. FilesList parent_id (Some t)) toks) = []"
    by (induction toks) auto
  ultimately show ?thesis
    by (intro exI[of _ "FilesList parent_id None # map (\<lambda>t. FilesList parent_id (Some t)) toks"]) auto
qed

lemma update_children_step:
  assumes "map_of c ''id'' = Some cid"
  shows "\<exists>l. mutation_request (Log l) = [cid] \<and>
    update_children sv new_time recursive dry_run (c # cs) queue tr =
     (case retryable_update sv cid [(''modifiedTime'', new_time)] ''id, name, modifiedTime'' dry_run
             DEFAULT_RETRIES (tr @ [Log l]) of
        (tr', Inl e) \<Rightarrow> (tr', Inl e)
      | (tr', Inr x) \<Rightarrow>
          update_children sv new_time recursive dry_run cs
            (queue @ (if recursive \<and> is_folder c then [cid] else [])) tr')"
proof (cases "is_folder c")
  case True
  then have "(case map_of c ''mimeType'' of None \<Rightarrow> [] | Some v \<Rightarrow> v) = FOLDER_MIME"
    by (simp add: is_folder_iff)
  with assms True show ?thesis
    by (intro exI[of _ "LogFolderChild (case map_of c ''name'' of None \<Rightarrow> ''<unknown>'' | Some v \<Rightarrow> v) cid"])
       (auto simp: Let_def split: prod.splits sum.splits)
next
  case False
  then have "(case map_of c ''mimeType'' of None \<Rightarrow> [] | Some v \<Rightarrow> v) \<noteq> FOLDER_MIME"
    by (simp add: is_folder_iff)
  with assms False show ?thesis
    by (intro exI[of _ "LogFile (case map_of c ''name'' of None \<Rightarrow> ''<unknown>'' | Some v \<Rightarrow> v) cid"])
       (auto simp: Let_def split: prod.splits sum.splits)
qed

lemma update_children_trace:
  "update_children sv new_time recursive dry_run cs queue tr = (tr', r) \<Longrightarrow>
   \<exists>evs. tr' = tr @ evs \<and> list_targets evs = [] \<and>
     prefix (mutation_requests evs) (child_ids cs) \<and>
     set (update_targets evs) \<subseteq> set (mutation_requests evs) \<and>
     (dry_run \<longrightarrow> update_targets evs = [] \<and> sleeps evs = []) \<and>
     (\<forall>q'. r = Inr q' \<longrightarrow>
        mutation_requests evs = child_ids cs \<and>
        q' = queue @ (if recursive then folder_ids cs else []) \<and>
        (\<not> dry_run \<longrightarrow> set (update_targets evs) = set (child_ids cs)))"
proof (induction cs arbitrary: queue tr)
  case Nil
  then show ?case by auto
next
  case (Cons c cs)
  show ?case
  proof (cases "map_of c ''id''")
    case None
    with Cons.prems show ?thesis by auto
  next
    case (Some cid)
    from update_children_step[OF Some, of sv new_time recursive dry_run cs queue tr]
    obtain l where l: "mutation_request (Log l) = [cid]" and
      step: "update_children sv new_time recursive dry_run (c # cs) queue tr =
       (case retryable_update sv cid [(''modifiedTime'', new_time)] ''id, name, modifiedTime'' dry_run
             DEFAULT_RETRIES (tr @ [Log l]) of
        (tr', Inl e) \<Rightarrow> (tr', Inl e)
      | (tr', Inr x) \<Rightarrow>
          update_children sv new_time recursive dry_run cs
            (queue @ (if recursive \<and> is_folder c then [cid] else [])) tr')"
      by blast
    obtain tr1 r1 where ru: "retryable_update sv cid [(''modifiedTime'', new_time)] ''id, name, modifiedTime'' dry_run
             DEFAULT_RETRIES (tr @ [Log l]) = (tr1, r1)"
      by (cases "retryable_update sv cid [(''modifiedTime'', new_time)] ''id, name, modifiedTime'' dry_run
             DEFAULT_RETRIES (tr @ [Log l])")
    from retryable_update_trace[OF ru] obtain evs1 where evs1:
      "tr1 = (tr @ [Log l]) @ evs1" "list_targets evs1 = []" "mutation_requests evs1 = []"
      "set (update_targets evs1) \<subseteq> {cid}"
      "dry_run \<longrightarrow> update_targets evs1 = [] \<and> sleeps evs1 = [] \<and> r1 = Inr None"
      "\<not> dry_run \<longrightarrow> (\<forall>x. r1 = Inr x \<longrightarrow> update_targets evs1 \<noteq> [])"
      by blast
    have ll: "list_targets [Log l] = []" "update_targets [Log l] = []" "sleeps [Log l] = []"
      "mutation_requests [Log l] = [cid]"
      using l by simp_all
    show ?thesis
    proof (cases r1)
      case (Inl e)
      with Cons.prems step ru have "tr' = tr1" "r = Inl e" by (simp_all del: update_children.simps)
      with evs1 ll Some show ?thesis
        by (intro exI[of _ "[Log l] @ evs1"]) (auto simp del: update_target.simps)
    next
      case (Inr x)
      with Cons.prems step ru have
        "update_children sv new_time recursive dry_run cs
            (queue @ (if recursive \<and> is_folder c then [cid] else [])) tr1 = (tr', r)"
        by (simp del: update_children.simps)
      from Cons.IH[OF this] obtain evs2 where evs2:
        "tr' = tr1 @ evs2" "list_targets evs2 = []"
        "prefix (mutation_requests evs2) (child_ids cs)"
        "set (update_targets evs2) \<subseteq> set (mutation_requests evs2)"
        "dry_run \<longrightarrow> update_targets evs2 = [] \<and> sleeps evs2 = []"
        "\<forall>q'. r = Inr q' \<longrightarrow>
          mutation_requests evs2 = child_ids cs \<and>
          q' = (queue @ (if recursive \<and> is_folder c then [cid] else [])) @ (if recursive then folder_ids cs else []) \<and>
          (\<not> dry_run \<longrightarrow> set (update_targets evs2) = set (child_ids cs))"
        by blast
      from evs1(6) Inr have ne: "\<not> dry_run \<longrightarrow> set (update_targets evs1) = {cid}"
        using evs1(4) by (cases "update_targets evs1") auto
      show ?thesis
      proof (intro exI[of _ "[Log l] @ evs1 @ evs2"] conjI impI allI)
        show "tr' = tr @ [Log l] @ evs1 @ evs2" using evs1(1) evs2(1) by simp
        show "list_targets ([Log l] @ evs1 @ evs2) = []" using ll evs1 evs2 by simp
        show "prefix (mutation_requests ([Log l] @ evs1 @ evs2)) (child_ids (c # cs))"
          using ll evs1 evs2 Some by simp
        show "set (update_targets ([Log l] @ evs1 @ evs2)) \<subseteq> set (mutation_requests ([Log l] @ evs1 @ evs2))"
          using ll evs1 evs2 by auto
        show "update_targets ([Log l] @ evs1 @ evs2) = []" if dry_run
          using that ll evs1 evs2 by simp
        show "sleeps ([Log l] @ evs1 @ evs2) = []" if dry_run
          using that ll evs1 evs2 by simp
        show "mutation_requests ([Log l] @ evs1 @ evs2) = child_ids (c # cs)" if "r = Inr q'" for q'
          using that ll evs1 evs2 Some by simp
        show "q' = queue @ (if recursive then folder_ids (c # cs) else [])" if "r = Inr q'" for q'
          using that evs2(6) Some by auto
        show "set (update_targets ([Log l] @ evs1 @ evs2)) = set (child_ids (c # cs))"
          if "r = Inr q'" "\<not> dry_run" for q'
          using that ll ne evs2(6) Some by auto
      qed
    qed
  qed
qed

lemma walk_expansions:
  "walk n sv new_time recursive dry_run queue visited tr = (tr', visited', r) \<Longrightarrow>
   \<exists>evs. tr' = tr @ evs \<and> distinct (expansions evs) \<and> set (expansions evs) \<inter> visited = {} \<and>
     visited' = visited \<union> set (expansions evs) \<and>
     (dry_run \<longrightarrow> update_targets evs = [] \<and> sleeps evs = [])"
proof (induction n sv new_time recursive dry_run queue visited tr rule: walk.induct)
  case (1 n sv new_time recursive dry_run visited tr)
  then show ?case by simp
next
  case (2 sv new_time recursive dry_run current_folder queue visited tr)
  then show ?case by simp
next
  case (3 n sv new_time recursive dry_run current_folder queue visited tr)
  show ?case
  proof (cases "current_folder \<in> visited")
    case True
    with "3.prems" "3.IH"(1) show ?thesis by simp
  next
    case False
    obtain tr1 lr where lc: "list_children (Suc n) sv current_folder tr = (tr1, lr)"
      by (cases "list_children (Suc n) sv current_folder tr")
    from list_children_trace[OF lc] obtain evs1 where evs1:
      "tr1 = tr @ evs1" "expansions evs1 = [current_folder]"
      "update_targets evs1 = []" "sleeps evs1 = []"
      by blast
    note base = exI[of _ evs1]
    show ?thesis
    proof (cases lr)
      case None
      with "3.prems" False lc evs1 show ?thesis by (intro base) auto
    next
      case (Some res)
      show ?thesis
      proof (cases res)
        case (Inl e)
        with "3.prems" False lc Some evs1 show ?thesis by (intro base) auto
      next
        case (Inr children)
        show ?thesis
        proof (cases "children = []")
          case True
          with "3.prems" False lc Some Inr have w:
            "walk n sv new_time recursive dry_run queue (insert current_folder visited)
               (tr1 @ [Log (LogNoChildren current_folder)]) = (tr', visited', r)"
            by simp
          from "3.IH"(2)[OF False lc[symmetric] Some Inr True w]
          obtain evs2 where evs2: "tr' = (tr1 @ [Log (LogNoChildren current_folder)]) @ evs2"
            "distinct (expansions evs2)"
            "set (expansions evs2) \<inter> insert current_folder visited = {}"
            "visited' = insert current_folder visited \<union> set (expansions evs2)"
            "dry_run \<longrightarrow> update_targets evs2 = [] \<and> sleeps evs2 = []"
            by blast
          with evs1 False show ?thesis
            by (intro exI[of _ "evs1 @ [Log (LogNoChildren current_folder)] @ evs2"]) auto
        next
          case ne: False
          obtain tr2 ur where uc: "update_children sv new_time recursive dry_run children queue tr1 = (tr2, ur)"
            by (cases "update_children sv new_time recursive dry_run children queue tr1")
          from update_children_trace[OF uc] obtain evs2 where evs2:
            "tr2 = tr1 @ evs2" "list_targets evs2 = []"
            "dry_run \<longrightarrow> update_targets evs2 = [] \<and> sleeps evs2 = []"
            by blast
          then have ex2: "expansions evs2 = []" by (simp add: expansions_no_list)
          show ?thesis
          proof (cases ur)
            case (Inl e)
            with "3.prems" False lc Some Inr ne uc evs1 evs2 ex2 show ?thesis
              by (intro exI[of _ "evs1 @ evs2"]) auto
          next
            case (Inr queue')
            with "3.prems" False lc Some \<open>res = Inr children\<close> ne uc have w:
              "walk n sv new_time recursive dry_run queue' (insert current_folder visited) tr2
                 = (tr', visited', r)"
              by simp
            from "3.IH"(3)[OF False lc[symmetric] Some \<open>res = Inr children\<close> ne uc[symmetric] Inr w]
            obtain evs3 where evs3: "tr' = tr2 @ evs3"
              "distinct (expansions evs3)"
              "set (expansions evs3) \<inter> insert current_folder visited = {}"
              "visited' = insert current_folder visited \<union> set (expansions evs3)"
              "dry_run \<longrightarrow> update_targets evs3 = [] \<and> sleeps evs3 = []"
              by blast
            with evs1 evs2 ex2 False show ?thesis
              by (intro exI[of _ "evs1 @ evs2 @ evs3"]) auto
          qed
        qed
      qed
    qed
  qed
qed

lemma walk_non_recursive:
  assumes "walk n sv new_time False dry_run [folder_id] {} tr0 = (tr, visited, r)"
  shows "(n = 0 \<and> tr = tr0 \<and> r = None) \<or>
    (\<exists>tr1 lr evs2. list_children n sv folder_id tr0 = (tr1, lr) \<and> tr = tr1 @ evs2 \<and>
       (case lr of
          Some (Inr cs) \<Rightarrow>
            list_targets evs2 = [] \<and> prefix (mutation_requests evs2) (child_ids cs) \<and>
            set (update_targets evs2) \<subseteq> set (mutation_requests evs2) \<and>
            (dry_run \<longrightarrow> update_targets evs2 = []) \<and>
            (r = Some (Inr ()) \<longrightarrow> mutation_requests evs2 = child_ids cs \<and>
               (\<not> dry_run \<longrightarrow> set (update_targets evs2) = set (child_ids cs)))
        | _ \<Rightarrow> evs2 = [] \<and> r \<noteq> Some (Inr ())))"
proof (cases n)
  case 0
  with assms show ?thesis by simp
next
  case (Suc m)
  obtain tr1 lr where lc: "list_children (Suc m) sv folder_id tr0 = (tr1, lr)"
    by (cases "list_children (Suc m) sv folder_id tr0")
  show ?thesis
  proof (cases lr)
    case None
    with assms Suc lc show ?thesis by auto
  next
    case (Some res)
    show ?thesis
    proof (cases res)
      case (Inl e)
      with assms Suc lc Some show ?thesis by auto
    next
      case (Inr cs)
      show ?thesis
      proof (cases "cs = []")
        case True
        with assms Suc lc Some Inr have "tr = tr1 @ [Log (LogNoChildren folder_id)]" "r = Some (Inr ())"
          by auto
        with Suc lc Some Inr True show ?thesis
          by (intro disjI2 exI[of _ tr1] exI[of _ lr] exI[of _ "[Log (LogNoChildren folder_id)]"]) auto
      next
        case False
        obtain tr2 ur where uc: "update_children sv new_time False dry_run cs [] tr1 = (tr2, ur)"
          by (cases "update_children sv new_time False dry_run cs [] tr1")
        from update_children_trace[OF uc] obtain evs where evs:
          "tr2 = tr1 @ evs" "list_targets evs = []"
          "prefix (mutation_requests evs) (child_ids cs)"
          "set (update_targets evs) \<subseteq> set (mutation_requests evs)"
          "dry_run \<longrightarrow> update_targets evs = [] \<and> sleeps evs = []"
          "\<forall>q'. ur = Inr q' \<longrightarrow> mutation_requests evs = child_ids cs \<and> q' = [] @ (if False then folder_ids cs else []) \<and>
              (\<not> dry_run \<longrightarrow> set (update_targets evs) = set (child_ids cs))"
          by blast
        have "tr = tr2 \<and> (r = Some (Inr ()) \<longrightarrow> (\<exists>q'. ur = Inr q'))"
        proof (cases ur)
          case (Inl e)
          with assms Suc lc Some Inr False uc show ?thesis by auto
        next
          case (Inr q')
          with evs(6) have "q' = []" by simp
          with assms Suc lc Some \<open>res = Inr cs\<close> False uc Inr show ?thesis by auto
        qed
        with evs Suc lc Some Inr show ?thesis
          by (intro disjI2 exI[of _ tr1] exI[of _ lr] exI[of _ evs]) auto
      qed
    qed
  qed
qed

lemma list_requests_simps [simp]:
  "list_requests [] = []"
  "list_requests (e # tr) = (if is_list_request e then e # list_requests tr else list_requests tr)"
  "list_requests (tr @ tr') = list_requests tr @ list_requests tr'"
  by (simp_all add: list_requests_def)

lemma list_requests_no_list: "list_targets evs = [] \<Longrightarrow> list_requests evs = []"
proof (induction evs)
  case Nil
  then show ?case by simp
next
  case (Cons e evs)
  then show ?case by (cases e) auto
qed

lemma list_children_loop_static:
  assumes "static_listing sv"
  shows "\<exists>evs res. list_requests evs = evs \<and>
     (\<forall>tr. list_children_loop n sv parent_id acc page_token tr = (tr @ evs, res))"
proof (induction n arbitrary: acc page_token)
  case 0
  show ?case by (intro exI[of _ "[]"] exI[of _ None]) simp
next
  case (Suc n)
  have st: "files_list sv tr parent_id page_token = files_list sv [] parent_id page_token" for tr
    using assms unfolding static_listing_def by blast
  show ?case
  proof (cases "files_list sv [] parent_id page_token")
    case (Inl e)
    with st have f: "files_list sv tr parent_id page_token = Inl e" for tr by metis
    show ?thesis
      by (intro exI[of _ "[FilesList parent_id page_token]"] exI[of _ "Some (Inl e)"])
         (simp add: f)
  next
    case (Inr response)
    with st have f: "files_list sv tr parent_id page_token = Inr response" for tr by metis
    show ?thesis
    proof (cases "nextPageToken response = None \<or> nextPageToken response = Some []")
      case True
      then show ?thesis
        by (intro exI[of _ "[FilesList parent_id page_token]"]
              exI[of _ "Some (Inr (acc @ (case files response of None \<Rightarrow> [] | Some fs \<Rightarrow> fs)))"])
           (auto simp: f Let_def)
    next
      case False
      from Suc[of "acc @ (case files response of None \<Rightarrow> [] | Some fs \<Rightarrow> fs)" "nextPageToken response"]
      obtain evs res where ih: "list_requests evs = evs"
        "\<forall>tr. list_children_loop n sv parent_id
            (acc @ (case files response of None \<Rightarrow> [] | Some fs \<Rightarrow> fs)) (nextPageToken response) tr
          = (tr @ evs, res)"
        by blast
      with False show ?thesis
        by (intro exI[of _ "FilesList parent_id page_token # evs"] exI[of _ res])
           (auto simp: f Let_def)
    qed
  qed
qed

lemma update_children_dry_follows:
  "update_children sv new_time recursive False cs queue tr = (tr', Inr q') \<Longrightarrow>
   \<exists>tr''. update_children sv new_time recursive True cs queue trd = (tr'', Inr q')"
proof (induction cs arbitrary: queue tr trd)
  case Nil
  then show ?case by simp
next
  case (Cons c cs)
  show ?case
  proof (cases "map_of c ''id''")
    case None
    with Cons.prems show ?thesis by simp
  next
    case (Some cid)
    from update_children_step[OF Some, of sv new_time recursive False cs queue tr]
    obtain l where
      step: "update_children sv new_time recursive False (c # cs) queue tr =
       (case retryable_update sv cid [(''modifiedTime'', new_time)] ''id, name, modifiedTime'' False
             DEFAULT_RETRIES (tr @ [Log l]) of
        (tr', Inl e) \<Rightarrow> (tr', Inl e)
      | (tr', Inr x) \<Rightarrow>
          update_children sv new_time recursive False cs
            (queue @ (if recursive \<and> is_folder c then [cid] else [])) tr')"
      by blast
    from update_children_step[OF Some, of sv new_time recursive True cs queue trd]
    obtain l' where
      "update_children sv new_time recursive True (c # cs) queue trd =
       (case retryable_update sv cid [(''modifiedTime'', new_time)] ''id, name, modifiedTime'' True
             DEFAULT_RETRIES (trd @ [Log l']) of
        (tr', Inl e) \<Rightarrow> (tr', Inl e)
      | (tr', Inr x) \<Rightarrow>
          update_children sv new_time recursive True cs
            (queue @ (if recursive \<and> is_folder c then [cid] else [])) tr')"
      by blast
    then have step': "update_children sv new_time recursive True (c # cs) queue trd =
          update_children sv new_time recursive True cs
            (queue @ (if recursive \<and> is_folder c then [cid] else []))
            ((trd @ [Log l']) @ [Log (LogDryRun cid [(''modifiedTime'', new_time)])])"
      by (simp only: retryable_update_def if_True prod.case sum.case)
    obtain tr1 r1 where ru: "retryable_update sv cid [(''modifiedTime'', new_time)] ''id, name, modifiedTime'' False
             DEFAULT_RETRIES (tr @ [Log l]) = (tr1, r1)"
      by (cases "retryable_update sv cid [(''modifiedTime'', new_time)] ''id, name, modifiedTime'' False
             DEFAULT_RETRIES (tr @ [Log l])")
    with Cons.prems step have
      "update_children sv new_time recursive False cs
            (queue @ (if recursive \<and> is_folder c then [cid] else [])) tr1 = (tr', Inr q')"
      by (cases r1) (auto simp del: update_children.simps)
    from Cons.IH[OF this] show ?thesis unfolding step' .
  qed
qed

lemma walk_extends:
  "walk n sv new_time recursive dry_run queue visited tr = (tr', visited', r) \<Longrightarrow>
   \<exists>evs. tr' = tr @ evs"
  using walk_expansions by blast

lemma walk_dry_vs_real:
  assumes "static_listing sv"
  shows "walk n sv new_time recursive False queue visited trr = (trr', vr, rr) \<Longrightarrow>
     walk n sv new_time recursive True queue visited trd = (trd', vd, rd) \<Longrightarrow>
     \<exists>er ed. trr' = trr @ er \<and> trd' = trd @ ed \<and>
       prefix (list_requests er) (list_requests ed) \<and>
       (rr = Some (Inr ()) \<longrightarrow>
          list_requests ed = list_requests er \<and> rd = Some (Inr ()) \<and> vd = vr)"
proof (induction n arbitrary: queue visited trr trd)
  case 0
  then show ?case by (cases queue) auto
next
  case (Suc n)
  show ?case
  proof (cases queue)
    case Nil
    with Suc.prems show ?thesis by auto
  next
    case (Cons c qs)
    show ?thesis
    proof (cases "c \<in> visited")
      case True
      with Suc.prems Cons Suc.IH[of qs visited trr trd] show ?thesis by simp
    next
      case False
      from list_children_loop_static[OF assms, of "Suc n" c "[]" None]
      obtain evs res where evs: "list_requests evs = evs"
        "\<And>tr. list_children (Suc n) sv c tr = (tr @ evs, res)"
        unfolding list_children_def by blast
      note wr = Suc.prems(1)[unfolded Cons walk.simps(3) evs(2)]
      note wd = Suc.prems(2)[unfolded Cons walk.simps(3) evs(2)]
      show ?thesis
      proof (cases "\<exists>cs. res = Some (Inr cs)")
        case no: False
        with wr wd False have "trr' = trr @ evs" "trd' = trd @ evs" "rr \<noteq> Some (Inr ())"
          by (auto split: option.splits sum.splits)
        then show ?thesis by (intro exI[of _ evs]) simp
      next
        case True
        then obtain cs where cs: "res = Some (Inr cs)" by blast
        show ?thesis
        proof (cases "cs = []")
          case e: True
          from wr wd False cs e have
            "walk n sv new_time recursive False qs (insert c visited)
               ((trr @ evs) @ [Log (LogNoChildren c)]) = (trr', vr, rr)"
            "walk n sv new_time recursive True qs (insert c visited)
               ((trd @ evs) @ [Log (LogNoChildren c)]) = (trd', vd, rd)"
            by simp_all
          from Suc.IH[OF this] obtain er ed where
            "trr' = ((trr @ evs) @ [Log (LogNoChildren c)]) @ er"
            "trd' = ((trd @ evs) @ [Log (LogNoChildren c)]) @ ed"
            "prefix (list_requests er) (list_requests ed)"
            "rr = Some (Inr ()) \<longrightarrow>
               list_requests ed = list_requests er \<and> rd = Some (Inr ()) \<and> vd = vr"
            by blast
          then show ?thesis
            by (intro exI[of _ "evs @ [Log (LogNoChildren c)] @ er"]
                  exI[of _ "evs @ [Log (LogNoChildren c)] @ ed"]) simp
        next
          case ne: False
          obtain trr2 ur where ucr:
            "update_children sv new_time recursive False cs qs (trr @ evs) = (trr2, ur)"
            by (cases "update_children sv new_time recursive False cs qs (trr @ evs)")
          obtain trd2 ud where ucd:
            "update_children sv new_time recursive True cs qs (trd @ evs) = (trd2, ud)"
            by (cases "update_children sv new_time recursive True cs qs (trd @ evs)")
          from update_children_trace[OF ucr] obtain e2r where e2r:
            "trr2 = (trr @ evs) @ e2r" "list_targets e2r = []" by blast
          from update_children_trace[OF ucd] obtain e2d where e2d:
            "trd2 = (trd @ evs) @ e2d" "list_targets e2d = []" by blast
          have l2: "list_requests e2r = []" "list_requests e2d = []"
            using e2r e2d by (simp_all add: list_requests_no_list)
          have "\<exists>e3. trd' = trd2 @ e3"
          proof (cases ud)
            case (Inl e)
            with wd False cs ne ucd show ?thesis by simp
          next
            case (Inr q')
            with wd False cs ne ucd have
              "walk n sv new_time recursive True q' (insert c visited) trd2 = (trd', vd, rd)"
              by simp
            then show ?thesis by (rule walk_extends)
          qed
          then obtain e3 where e3: "trd' = trd2 @ e3" by blast
          show ?thesis
          proof (cases ur)
            case (Inl e)
            with wr False cs ne ucr have "trr' = trr2" "rr \<noteq> Some (Inr ())" by auto
            with e2r e2d e3 l2 evs(1) show ?thesis
              by (intro exI[of _ "evs @ e2r"] exI[of _ "evs @ e2d @ e3"]) simp
          next
            case (Inr q')
            from update_children_dry_follows[OF ucr[unfolded Inr], of "trd @ evs"] ucd
            have ud: "ud = Inr q'" by auto
            from wr False cs ne ucr Inr have
              1: "walk n sv new_time recursive False q' (insert c visited) trr2 = (trr', vr, rr)"
              by simp
            from wd False cs ne ucd ud have
              2: "walk n sv new_time recursive True q' (insert c visited) trd2 = (trd', vd, rd)"
              by simp
            from Suc.IH[OF 1 2] obtain er ed where
              "trr' = trr2 @ er" "trd' = trd2 @ ed"
              "prefix (list_requests er) (list_requests ed)"
              "rr = Some (Inr ()) \<longrightarrow>
                 list_requests ed = list_requests er \<and> rd = Some (Inr ()) \<and> vd = vr"
              by blast
            with e2r e2d l2 show ?thesis
              by (intro exI[of _ "evs @ e2r @ er"] exI[of _ "evs @ e2d @ ed"]) simp
          qed
        qed
      qed
    qed
  qed
qed

section \<open>The claims about the retrying mutator\<close>

text \<open>
  C6. With the dry-run flag set, \<open>retryable_update\<close> returns \<open>None\<close> at once, whatever the
  service, the object, the body and the retry bound are: the only thing it adds to the
  trace is the log line of the intended change, so it sends no update request and never
  sleeps, and the retry loop is not entered.
\<close>

theorem dry_run_skips:
  "\<exists>evs. retryable_update sv file_id body flds True max_retries tr = (tr @ evs, Inr None) \<and>
     evs = [Log (LogDryRun file_id body)] \<and> update_targets evs = [] \<and> sleeps evs = []"
  by (simp add: retryable_update_def)

text \<open>
  C4. A run of \<open>retryable_update\<close> that is not a dry run sends at most \<open>max_retries\<close>
  update requests. The failures it retries are exactly the \<open>HttpError\<close>s with status 429,
  500 or 503: at any attempt of the loop (with any attempts \<open>rest\<close> still to come), such a
  failure is followed by a sleep and the remaining attempts; any other failure (another
  status, an unreadable status, an exception that is not an \<open>HttpError\<close>) ends the loop
  at once with that failure, after nothing but log lines; a success ends it with the
  response. When the service answers every request with a transient failure, the call
  raises \<open>RuntimeError\<close>. (The sleep duration of attempt 1024 would not be a float any
  more, see C5; the program only ever runs with the default of 5 attempts.)
\<close>

theorem retry_policy:
  "(\<exists>evs. fst (retryable_update sv file_id body flds False max_retries tr) = tr @ evs \<and>
          length (update_targets evs) \<le> nat max_retries)
   \<and> (\<forall>e. transient_failure e \<longleftrightarrow> (\<exists>st. e = HttpError (Some st) \<and> st \<in> {429, 500, 503}))
   \<and> (\<forall>attempt rest e.
         files_update sv tr file_id body flds = Inl e \<and> transient_failure e \<and> attempt < 1024 \<longrightarrow>
         (\<exists>l s. retry_attempts sv file_id body flds max_retries (attempt # rest) tr =
                retry_attempts sv file_id body flds max_retries rest
                  (tr @ [FilesUpdate file_id body flds, Log l, Sleep s])))
   \<and> (\<forall>attempt rest e.
         files_update sv tr file_id body flds = Inl e \<and> \<not> transient_failure e \<longrightarrow>
         (\<exists>logs. retry_attempts sv file_id body flds max_retries (attempt # rest) tr =
                (tr @ FilesUpdate file_id body flds # map Log logs, Inl e)))
   \<and> (\<forall>attempt rest resp.
         files_update sv tr file_id body flds = Inr resp \<longrightarrow>
         retry_attempts sv file_id body flds max_retries (attempt # rest) tr =
           (tr @ [FilesUpdate file_id body flds], Inr (Some resp)))
   \<and> ((\<forall>h. \<exists>e. files_update sv h file_id body flds = Inl e \<and> transient_failure e) \<and>
        max_retries \<le> 1024 \<longrightarrow>
        snd (retryable_update sv file_id body flds False max_retries tr) =
          Inl (RuntimeError ''Max retries exceeded for file update.''))"
proof (intro conjI allI impI)
  obtain tr' r where run: "retry_attempts sv file_id body flds max_retries [0..<nat max_retries] tr = (tr', r)"
    by (cases "retry_attempts sv file_id body flds max_retries [0..<nat max_retries] tr")
  from retry_attempts_trace[OF run]
  show "\<exists>evs. fst (retryable_update sv file_id body flds False max_retries tr) = tr @ evs \<and>
          length (update_targets evs) \<le> nat max_retries"
    by (auto simp: retryable_update_def run)
next
  fix e
  show "transient_failure e \<longleftrightarrow> (\<exists>st. e = HttpError (Some st) \<and> st \<in> {429, 500, 503})"
    by (cases e) (auto simp: transient_failure_def)
next
  fix attempt :: nat and rest e
  assume "files_update sv tr file_id body flds = Inl e \<and> transient_failure e \<and> attempt < 1024"
  then show "\<exists>l s. retry_attempts sv file_id body flds max_retries (attempt # rest) tr =
                retry_attempts sv file_id body flds max_retries rest
                  (tr @ [FilesUpdate file_id body flds, Log l, Sleep s])"
    using retry_attempts_transient[of sv tr file_id body flds e attempt max_retries rest] by blast
next
  fix attempt :: nat and rest e
  assume "files_update sv tr file_id body flds = Inl e \<and> \<not> transient_failure e"
  then show "\<exists>logs. retry_attempts sv file_id body flds max_retries (attempt # rest) tr =
                (tr @ FilesUpdate file_id body flds # map Log logs, Inl e)"
    using retry_attempts_fatal[of sv tr file_id body flds e max_retries attempt rest] by blast
next
  fix attempt :: nat and rest resp
  assume "files_update sv tr file_id body flds = Inr resp"
  then show "retry_attempts sv file_id body flds max_retries (attempt # rest) tr =
           (tr @ [FilesUpdate file_id body flds], Inr (Some resp))"
    by (rule retry_attempts_success)
next
  assume a: "(\<forall>h. \<exists>e. files_update sv h file_id body flds = Inl e \<and> transient_failure e) \<and>
        max_retries \<le> 1024"
  then have "\<forall>a\<in>set [0..<nat max_retries]. a < 1024" by auto
  with a retry_attempts_all_transient[of sv file_id body flds "[0..<nat max_retries]" max_retries tr]
  show "snd (retryable_update sv file_id body flds False max_retries tr) =
          Inl (RuntimeError ''Max retries exceeded for file update.'')"
    by (auto simp: retryable_update_def)
qed

text \<open>
  C10. When the service answers every update request with a transient failure, a run of
  \<open>retryable_update\<close> consists of exactly \<open>max_retries\<close> requests, each followed by a
  sleep, the last one included, and then raises \<open>RuntimeError\<close>: \<open>max_retries\<close> sleeps
  in all.
\<close>

theorem exhaustion_sleeps:
  assumes "\<forall>h. \<exists>e. files_update sv h file_id body flds = Inl e \<and> transient_failure e"
    and "max_retries \<le> 1024"
  shows "\<exists>ss evs. length ss = nat max_retries \<and>
     retryable_update sv file_id body flds False max_retries tr =
        (tr @ evs, Inl (RuntimeError ''Max retries exceeded for file update.'')) \<and>
     actions evs = concat (map (\<lambda>s. [FilesUpdate file_id body flds, Sleep s]) ss) \<and>
     sleeps evs = ss"
proof -
  from assms(2) have "\<forall>a\<in>set [0..<nat max_retries]. a < 1024" by auto
  with assms(1) retry_attempts_all_transient[of sv file_id body flds "[0..<nat max_retries]" max_retries tr]
  obtain ss evs where *: "length ss = nat max_retries"
    "retry_attempts sv file_id body flds max_retries [0..<nat max_retries] tr =
        (tr @ evs, Inl (RuntimeError ''Max retries exceeded for file update.''))"
    "actions evs = concat (map (\<lambda>s. [FilesUpdate file_id body flds, Sleep s]) ss)"
    by auto
  have "sleeps (actions evs) = sleeps evs" for evs
  proof (induction evs)
    case Nil
    then show ?case by simp
  next
    case (Cons e evs)
    then show ?case by (cases e) auto
  qed
  moreover have "sleeps (concat (map (\<lambda>s. [FilesUpdate file_id body flds, Sleep s]) ss)) = ss"
    by (induction ss) auto
  ultimately have "sleeps evs = ss" using *(3) by metis
  with * show ?thesis by (auto simp: retryable_update_def)
qed

text \<open>
  C5, as amended. With a random number generator that draws from \<open>[0, 1)\<close>, the sleep
  duration of attempt \<open>i\<close> (below 1024) is the double nearest to \<open>2 ^ i + jitter\<close>, which
  lies in the closed interval \<open>[2 ^ i, 2 ^ i + 1]\<close>; and in every run of
  \<open>retryable_update\<close> the \<open>i\<close>-th sleep (counting from 0) has a duration in that interval.
\<close>

theorem sleep_duration_interval:
  assumes "\<forall>h. 0 \<le> random_random sv h \<and> random_random sv h < 1"
  shows "(\<forall>attempt<1024. \<exists>s.
            sleep_for attempt (random_random sv h) = Inr s \<and>
            2 ^ attempt \<le> s \<and> s \<le> 2 ^ attempt + 1 \<and>
            \<bar>s - (2 ^ attempt + random_random sv h)\<bar> \<le> power_int 2 (int attempt - 53))
       \<and> (\<exists>evs. fst (retryable_update sv file_id body flds False max_retries tr) = tr @ evs \<and>
            (\<forall>i<length (sleeps evs). 2 ^ i \<le> sleeps evs ! i \<and> sleeps evs ! i \<le> 2 ^ i + 1))"
proof (intro conjI allI impI)
  fix attempt :: nat assume "attempt < 1024"
  with assms show "\<exists>s. sleep_for attempt (random_random sv h) = Inr s \<and>
            2 ^ attempt \<le> s \<and> s \<le> 2 ^ attempt + 1 \<and>
            \<bar>s - (2 ^ attempt + random_random sv h)\<bar> \<le> power_int 2 (int attempt - 53)"
    by (intro sleep_for_bounds) auto
next
  from retry_attempts_sleeps[OF assms, of file_id body flds max_retries "[0..<nat max_retries]" tr]
  obtain evs where *: "fst (retry_attempts sv file_id body flds max_retries [0..<nat max_retries] tr) = tr @ evs"
    "length (sleeps evs) \<le> length [0..<nat max_retries]"
    "\<forall>i<length (sleeps evs). 2 ^ ([0..<nat max_retries] ! i) \<le> sleeps evs ! i \<and> sleeps evs ! i \<le> 2 ^ ([0..<nat max_retries] ! i) + 1"
    by blast
  have "\<forall>i<length (sleeps evs). 2 ^ i \<le> sleeps evs ! i \<and> sleeps evs ! i \<le> 2 ^ i + 1"
  proof (intro allI impI)
    fix i assume i: "i < length (sleeps evs)"
    with *(2) have "[0..<nat max_retries] ! i = i" by simp
    with *(3) i show "2 ^ i \<le> sleeps evs ! i \<and> sleeps evs ! i \<le> 2 ^ i + 1" by metis
  qed
  with *(1) show "\<exists>evs. fst (retryable_update sv file_id body flds False max_retries tr) = tr @ evs \<and>
            (\<forall>i<length (sleeps evs). 2 ^ i \<le> sleeps evs ! i \<and> sleeps evs ! i \<le> 2 ^ i + 1)"
    by (auto simp: retryable_update_def)
qed

text \<open>
  Counterexample to C5 as stated: at attempt 0 with the jitter \<open>1 - 2 ^ -53\<close> (the
  largest double below 1) the exact sum \<open>2 - 2 ^ -53\<close> is halfway between two doubles and
  rounds to \<open>2.0\<close>, which is not in \<open>[1, 2)\<close>.
\<close>

theorem sleep_duration_counterexample:
  "(0::rat) \<le> 1 - 1 / 2 ^ 53 \<and> (1::rat) - 1 / 2 ^ 53 < 1 \<and>
   sleep_for 0 (1 - 1 / 2 ^ 53) = Inr 2 \<and> \<not> ((2::rat) < 2 ^ 0 + 1)"
  by code_simp

text \<open>Witness for C10: five requests answered with 429, five sleeps.\<close>

theorem exhaustion_sleeps_witness:
  "(\<forall>h. \<exists>e. files_update (failing_env 429) h ''x'' [] [] = Inl e \<and> transient_failure e) \<and>
   DEFAULT_RETRIES \<le> 1024 \<and>
   (\<exists>ss evs. length ss = nat DEFAULT_RETRIES \<and>
     retryable_update (failing_env 429) ''x'' [] [] False DEFAULT_RETRIES [] =
        ([] @ evs, Inl (RuntimeError ''Max retries exceeded for file update.'')) \<and>
     actions evs = concat (map (\<lambda>s. [FilesUpdate ''x'' [] [], Sleep s]) ss) \<and>
     sleeps evs = ss) \<and>
   sleeps (fst (retryable_update (failing_env 429) ''x'' [] [] False DEFAULT_RETRIES [])) =
     [3 / 2, 5 / 2, 9 / 2, 17 / 2, 33 / 2]"
proof -
  have h1: "\<forall>h. \<exists>e. files_update (failing_env 429) h ''x'' [] [] = Inl e \<and> transient_failure e"
    by (simp add: failing_env_def static_env_def transient_failure_def)
  have h2: "DEFAULT_RETRIES \<le> 1024" by (simp add: DEFAULT_RETRIES_def)
  have run: "sleeps (fst (retryable_update (failing_env 429) ''x'' [] [] False DEFAULT_RETRIES [])) =
     [3 / 2, 5 / 2, 9 / 2, 17 / 2, 33 / 2]"
    by code_simp
  from exhaustion_sleeps[OF h1 h2, of "[]"] h1 h2 run show ?thesis by blast
qed

text \<open>Witness for C5: the fifth sleep of a run against a service that always answers 429.\<close>

theorem sleep_duration_interval_witness:
  "(\<forall>h. 0 \<le> random_random (failing_env 429) h \<and> random_random (failing_env 429) h < 1) \<and>
   (\<exists>s. sleep_for 4 (random_random (failing_env 429) []) = Inr s \<and> 2 ^ 4 \<le> s \<and> s \<le> 2 ^ 4 + 1 \<and>
        \<bar>s - (2 ^ 4 + random_random (failing_env 429) [])\<bar> \<le> power_int 2 (int 4 - 53)) \<and>
   (\<exists>evs. fst (retryable_update (failing_env 429) ''x'' [] [] False DEFAULT_RETRIES []) = [] @ evs \<and>
      4 < length (sleeps evs) \<and> 2 ^ 4 \<le> sleeps evs ! 4 \<and> sleeps evs ! 4 \<le> 2 ^ 4 + 1)"
proof -
  have h: "\<forall>h. 0 \<le> random_random (failing_env 429) h \<and> random_random (failing_env 429) h < 1"
    by (simp add: failing_env_def static_env_def)
  have run: "length (sleeps (fst (retryable_update (failing_env 429) ''x'' [] [] False DEFAULT_RETRIES []))) = 5"
    by code_simp
  from sleep_duration_interval[OF h, of "[]" "''x''" "[]" "[]" DEFAULT_RETRIES "[]"]
  have 1: "\<forall>attempt<1024. \<exists>s.
            sleep_for attempt (random_random (failing_env 429) []) = Inr s \<and>
            2 ^ attempt \<le> s \<and> s \<le> 2 ^ attempt + 1 \<and>
            \<bar>s - (2 ^ attempt + random_random (failing_env 429) [])\<bar> \<le> power_int 2 (int attempt - 53)"
    and 2: "\<exists>evs. fst (retryable_update (failing_env 429) ''x'' [] [] False DEFAULT_RETRIES []) = [] @ evs \<and>
            (\<forall>i<length (sleeps evs). 2 ^ i \<le> sleeps evs ! i \<and> sleeps evs ! i \<le> 2 ^ i + 1)"
    by blast+
  have "(4::nat) < 1024" by simp
  with 1 have a: "\<exists>s. sleep_for 4 (random_random (failing_env 429) []) = Inr s \<and> 2 ^ 4 \<le> s \<and> s \<le> 2 ^ 4 + 1 \<and>
        \<bar>s - (2 ^ 4 + random_random (failing_env 429) [])\<bar> \<le> power_int 2 (int 4 - 53)"
    by blast
  from 2 obtain evs where evs: "fst (retryable_update (failing_env 429) ''x'' [] [] False DEFAULT_RETRIES []) = [] @ evs"
    "\<forall>i<length (sleeps evs). 2 ^ i \<le> sleeps evs ! i \<and> sleeps evs ! i \<le> 2 ^ i + 1" by blast
  from evs(1) run have "4 < length (sleeps evs)" by simp
  with evs have b: "\<exists>evs. fst (retryable_update (failing_env 429) ''x'' [] [] False DEFAULT_RETRIES []) = [] @ evs \<and>
      4 < length (sleeps evs) \<and> 2 ^ 4 \<le> sleeps evs ! 4 \<and> sleeps evs ! 4 \<le> 2 ^ 4 + 1"
    by blast
  from h a b show ?thesis by blast
qed

text \<open>
  Witness for C4: a service failing with 429, one failing with 403, one that succeeds,
  and the scenarios of the spec (429 twice and then success: three requests and two
  sleeps; 403: one request, no sleep).
\<close>

theorem retry_policy_witness:
  "files_update (failing_env 429) [] ''x'' [] [] = Inl (HttpError (Some 429)) \<and>
   transient_failure (HttpError (Some 429)) \<and> (0::nat) < 1024 \<and>
   (\<exists>l s. retry_attempts (failing_env 429) ''x'' [] [] DEFAULT_RETRIES (0 # [1, 2, 3, 4]) [] =
          retry_attempts (failing_env 429) ''x'' [] [] DEFAULT_RETRIES [1, 2, 3, 4]
            ([] @ [FilesUpdate ''x'' [] [], Log l, Sleep s])) \<and>
   (\<forall>h. \<exists>e. files_update (failing_env 429) h ''x'' [] [] = Inl e \<and> transient_failure e) \<and>
   DEFAULT_RETRIES \<le> 1024 \<and>
   snd (retryable_update (failing_env 429) ''x'' [] [] False DEFAULT_RETRIES []) =
     Inl (RuntimeError ''Max retries exceeded for file update.'') \<and>
   files_update (failing_env 403) [] ''x'' [] [] = Inl (HttpError (Some 403)) \<and>
   \<not> transient_failure (HttpError (Some 403)) \<and>
   (\<exists>logs. retry_attempts (failing_env 403) ''x'' [] [] DEFAULT_RETRIES (0 # [1, 2, 3, 4]) [] =
          ([] @ FilesUpdate ''x'' [] [] # map Log logs, Inl (HttpError (Some 403)))) \<and>
   files_update (static_env (\<lambda>p. [])) [] ''x'' [] [] = Inr [(''id'', ''x'')] \<and>
   retry_attempts (static_env (\<lambda>p. [])) ''x'' [] [] DEFAULT_RETRIES (0 # [1, 2, 3, 4]) [] =
     ([] @ [FilesUpdate ''x'' [] []], Inr (Some [(''id'', ''x'')])) \<and>
   retryable_update flaky_env ''x'' [] [] False DEFAULT_RETRIES [] =
     ([FilesUpdate ''x'' [] [], Log (LogTransient (Some 429) 1 5 (3 / 2)), Sleep (3 / 2),
       FilesUpdate ''x'' [] [], Log (LogTransient (Some 429) 2 5 (5 / 2)), Sleep (5 / 2),
       FilesUpdate ''x'' [] []], Inr (Some [(''id'', ''x'')])) \<and>
   retryable_update (failing_env 403) ''x'' [] [] False DEFAULT_RETRIES [] =
     ([FilesUpdate ''x'' [] [], Log (LogNonRetryable (Some 403))], Inl (HttpError (Some 403)))"
proof -
  have a1: "files_update (failing_env 429) [] ''x'' [] [] = Inl (HttpError (Some 429)) \<and>
      transient_failure (HttpError (Some 429)) \<and> (0::nat) < 1024"
    by (simp add: failing_env_def static_env_def transient_failure_def)
  have a2: "(\<forall>h. \<exists>e. files_update (failing_env 429) h ''x'' [] [] = Inl e \<and> transient_failure e) \<and>
      DEFAULT_RETRIES \<le> 1024"
    by (simp add: failing_env_def static_env_def transient_failure_def DEFAULT_RETRIES_def)
  have a3: "files_update (failing_env 403) [] ''x'' [] [] = Inl (HttpError (Some 403)) \<and>
      \<not> transient_failure (HttpError (Some 403))"
    by (simp add: failing_env_def static_env_def transient_failure_def)
  have a4: "files_update (static_env (\<lambda>p. [])) [] ''x'' [] [] = Inr [(''id'', ''x'')]"
    by (simp add: static_env_def)
  have r1: "retryable_update flaky_env ''x'' [] [] False DEFAULT_RETRIES [] =
     ([FilesUpdate ''x'' [] [], Log (LogTransient (Some 429) 1 5 (3 / 2)), Sleep (3 / 2),
       FilesUpdate ''x'' [] [], Log (LogTransient (Some 429) 2 5 (5 / 2)), Sleep (5 / 2),
       FilesUpdate ''x'' [] []], Inr (Some [(''id'', ''x'')]))"
    by code_simp
  have r2: "retryable_update (failing_env 403) ''x'' [] [] False DEFAULT_RETRIES [] =
     ([FilesUpdate ''x'' [] [], Log (LogNonRetryable (Some 403))], Inl (HttpError (Some 403)))"
    by code_simp
  note p1 = retry_policy[of "failing_env 429" "''x''" "[]" "[]" DEFAULT_RETRIES "[]"]
  note p2 = retry_policy[of "failing_env 403" "''x''" "[]" "[]" DEFAULT_RETRIES "[]"]
  note p3 = retry_policy[of "static_env (\<lambda>p. [])" "''x''" "[]" "[]" DEFAULT_RETRIES "[]"]
  from p1 a1 have c1: "\<exists>l s. retry_attempts (failing_env 429) ''x'' [] [] DEFAULT_RETRIES (0 # [1, 2, 3, 4]) [] =
          retry_attempts (failing_env 429) ''x'' [] [] DEFAULT_RETRIES [1, 2, 3, 4]
            ([] @ [FilesUpdate ''x'' [] [], Log l, Sleep s])"
    by blast
  from p1 a2 have c2: "snd (retryable_update (failing_env 429) ''x'' [] [] False DEFAULT_RETRIES []) =
     Inl (RuntimeError ''Max retries exceeded for file update.'')"
    by blast
  from p2 a3 have c3: "\<exists>logs. retry_attempts (failing_env 403) ''x'' [] [] DEFAULT_RETRIES (0 # [1, 2, 3, 4]) [] =
          ([] @ FilesUpdate ''x'' [] [] # map Log logs, Inl (HttpError (Some 403)))"
    by blast
  from p3 a4 have c4: "retry_attempts (static_env (\<lambda>p. [])) ''x'' [] [] DEFAULT_RETRIES (0 # [1, 2, 3, 4]) [] =
     ([] @ [FilesUpdate ''x'' [] []], Inr (Some [(''id'', ''x'')]))"
    by blast
  from a1 a2 a3 a4 c1 c2 c3 c4 r1 r2 show ?thesis by blast
qed

section \<open>The claims about the traversal engine\<close>



lemma root_phase:
  "\<exists>tr1 evs0 r0. tr1 = Log (LogUpdatingFolder folder_id new_time) # evs0 \<and>
     list_targets evs0 = [] \<and> mutation_requests evs0 = [] \<and>
     set (update_targets evs0) \<subseteq> {folder_id} \<and>
     (dry_run \<longrightarrow> update_targets evs0 = [] \<and> sleeps evs0 = []) \<and>
     (case r0 of
        Inl e \<Rightarrow>
          update_folder_and_contents n sv folder_id new_time recursive dry_run = (tr1, {}, Some (Inl e))
      | Inr (u :: unit) \<Rightarrow>
          (\<not> dry_run \<longrightarrow> update_targets evs0 \<noteq> []) \<and>
          update_folder_and_contents n sv folder_id new_time recursive dry_run =
            (case walk n sv new_time recursive dry_run [folder_id] {} tr1 of
               (tr2, visited, Some (Inr u)) \<Rightarrow> (tr2 @ [Log LogAllDone], visited, Some (Inr u))
             | (tr2, visited, r) \<Rightarrow> (tr2, visited, r)))"
proof -
  obtain tr0 r0 where ru: "retryable_update sv folder_id [(''modifiedTime'', new_time)]
             ''id, name, modifiedTime'' dry_run DEFAULT_RETRIES
             [Log (LogUpdatingFolder folder_id new_time)] = (tr0, r0)"
    by (cases "retryable_update sv folder_id [(''modifiedTime'', new_time)]
             ''id, name, modifiedTime'' dry_run DEFAULT_RETRIES
             [Log (LogUpdatingFolder folder_id new_time)]")
  from retryable_update_trace[OF ru] obtain evs where evs:
    "tr0 = [Log (LogUpdatingFolder folder_id new_time)] @ evs" "list_targets evs = []"
    "mutation_requests evs = []" "set (update_targets evs) \<subseteq> {folder_id}"
    "dry_run \<longrightarrow> update_targets evs = [] \<and> sleeps evs = [] \<and> r0 = Inr None"
    "\<not> dry_run \<longrightarrow> (\<forall>x. r0 = Inr x \<longrightarrow> update_targets evs \<noteq> [])"
    by blast
  show ?thesis
  proof (cases r0)
    case (Inl e)
    with ru evs show ?thesis
      by (intro exI[of _ tr0] exI[of _ evs] exI[of _ "Inl e"])
         (auto simp: update_folder_and_contents_def)
  next
    case (Inr folder_resp)
    define logs where "logs = (case folder_resp of
                       None \<Rightarrow> []
                     | Some r \<Rightarrow>
                         if r = [] then []
                         else [Log (LogUpdatedFolder (map_of r ''name'') (map_of r ''modifiedTime''))])"
    have l: "list_targets logs = []" "mutation_requests logs = []" "update_targets logs = []"
      "sleeps logs = []"
      by (auto simp: logs_def split: option.splits)
    have tr1: "(case folder_resp of
                       None \<Rightarrow> tr0
                     | Some r \<Rightarrow>
                         if r = [] then tr0
                         else tr0 @ [Log (LogUpdatedFolder (map_of r ''name'')
                                            (map_of r ''modifiedTime''))]) = tr0 @ logs"
      by (auto simp: logs_def split: option.splits)
    have "update_folder_and_contents n sv folder_id new_time recursive dry_run =
            (case walk n sv new_time recursive dry_run [folder_id] {} (tr0 @ logs) of
               (tr2, visited, Some (Inr u)) \<Rightarrow> (tr2 @ [Log LogAllDone], visited, Some (Inr u))
             | (tr2, visited, r) \<Rightarrow> (tr2, visited, r))"
      unfolding update_folder_and_contents_def ru using Inr
      by (simp add: tr1 Let_def split: prod.splits option.splits sum.splits)
    with evs l Inr show ?thesis
      by (intro exI[of _ "tr0 @ logs"] exI[of _ "evs @ logs"] exI[of _ "Inr ()"]) auto
  qed
qed

text \<open>
  C3. In a run that is not recursive, however it ends: every listing request names the
  root; the first object handed to the mutator is the root; every update request is for
  an object handed to the mutator; and the objects handed to it after the root are the
  first entries, in order, of the listing of the root. When the run completes, they are
  all its entries: the run mutates exactly the root and its direct children (and sends
  update requests for exactly those, unless it is a dry run).
\<close>

theorem non_recursive_run:
  assumes "update_folder_and_contents n sv folder_id new_time False dry_run = (tr, visited, r)"
  shows "set (list_targets tr) \<subseteq> {folder_id} \<and>
     (\<exists>ms. mutation_requests tr = folder_id # ms) \<and>
     set (update_targets tr) \<subseteq> set (mutation_requests tr) \<and>
     (dry_run \<longrightarrow> update_targets tr = []) \<and>
     (\<forall>ms. mutation_requests tr = folder_id # ms \<and> ms \<noteq> [] \<longrightarrow>
        (\<exists>tr0 tr1 cs. prefix tr1 tr \<and> list_targets tr0 = [] \<and>
           list_children n sv folder_id tr0 = (tr1, Some (Inr cs)) \<and> prefix ms (child_ids cs))) \<and>
     (r = Some (Inr ()) \<longrightarrow>
        (\<exists>tr0 tr1 cs. prefix tr1 tr \<and> list_targets tr0 = [] \<and>
           list_children n sv folder_id tr0 = (tr1, Some (Inr cs)) \<and>
           mutation_requests tr = folder_id # child_ids cs \<and>
           (\<not> dry_run \<longrightarrow> set (update_targets tr) = insert folder_id (set (child_ids cs)))))"
proof -
  from root_phase[of folder_id new_time dry_run n sv False]
  obtain tr1 evs0 r0 where rp: "tr1 = Log (LogUpdatingFolder folder_id new_time) # evs0"
     "list_targets evs0 = []" "mutation_requests evs0 = []"
     "set (update_targets evs0) \<subseteq> {folder_id}"
     "dry_run \<longrightarrow> update_targets evs0 = [] \<and> sleeps evs0 = []"
     "case r0 of
        Inl e \<Rightarrow>
          update_folder_and_contents n sv folder_id new_time False dry_run = (tr1, {}, Some (Inl e))
      | Inr (u :: unit) \<Rightarrow>
          (\<not> dry_run \<longrightarrow> update_targets evs0 \<noteq> []) \<and>
          update_folder_and_contents n sv folder_id new_time False dry_run =
            (case walk n sv new_time False dry_run [folder_id] {} tr1 of
               (tr2, visited, Some (Inr u)) \<Rightarrow> (tr2 @ [Log LogAllDone], visited, Some (Inr u))
             | (tr2, visited, r) \<Rightarrow> (tr2, visited, r))"
    by blast
  have t1: "list_targets tr1 = []" "mutation_requests tr1 = [folder_id]"
    "set (update_targets tr1) \<subseteq> {folder_id}" "dry_run \<longrightarrow> update_targets tr1 = []"
    using rp by auto
  show ?thesis
  proof (cases r0)
    case (Inl e)
    with rp(6) assms have "tr = tr1" "r = Some (Inl e)" by auto
    with t1 show ?thesis by auto
  next
    case (Inr u)
    with rp(6) have ne: "\<not> dry_run \<longrightarrow> set (update_targets tr1) = {folder_id}"
      using rp(1,4) by (cases "update_targets evs0") auto
    obtain tr2 visited2 r2 where wk: "walk n sv new_time False dry_run [folder_id] {} tr1 = (tr2, visited2, r2)"
      by (cases "walk n sv new_time False dry_run [folder_id] {} tr1")
    define fin where "fin = (if r2 = Some (Inr ()) then [Log LogAllDone] else [])"
    from rp(6) Inr wk assms have tr: "tr = tr2 @ fin" and r: "r = r2"
      by (auto simp: fin_def split: option.splits sum.splits)
    have f: "list_targets fin = []" "mutation_requests fin = []" "update_targets fin = []"
      by (auto simp: fin_def)
    show ?thesis
    proof (cases n)
      case 0
      with wk have "tr2 = tr1" "r2 = None" by simp_all
      with tr r t1 f show ?thesis by auto
    next
      case m: (Suc m)
      with walk_non_recursive[OF wk]
      obtain tr1' lr evs2 where lc: "list_children n sv folder_id tr1 = (tr1', lr)"
        and tr2: "tr2 = tr1' @ evs2"
        and c: "case lr of
          Some (Inr cs) \<Rightarrow>
            list_targets evs2 = [] \<and> prefix (mutation_requests evs2) (child_ids cs) \<and>
            set (update_targets evs2) \<subseteq> set (mutation_requests evs2) \<and>
            (dry_run \<longrightarrow> update_targets evs2 = []) \<and>
            (r2 = Some (Inr ()) \<longrightarrow> mutation_requests evs2 = child_ids cs \<and>
               (\<not> dry_run \<longrightarrow> set (update_targets evs2) = set (child_ids cs)))
        | _ \<Rightarrow> evs2 = [] \<and> r2 \<noteq> Some (Inr ())"
        by blast
      from list_children_trace[OF lc[unfolded m]] obtain evs1 where evs1:
        "tr1' = tr1 @ evs1" "set (list_targets evs1) = {folder_id}"
        "update_targets evs1 = []" "mutation_requests evs1 = []"
        by blast
      have pre: "prefix tr1' tr" using tr tr2 by simp
      show ?thesis
      proof (cases "\<exists>cs. lr = Some (Inr cs)")
        case True
        then obtain cs where cs: "lr = Some (Inr cs)" by blast
        with c have c': "list_targets evs2 = []" "prefix (mutation_requests evs2) (child_ids cs)"
            "set (update_targets evs2) \<subseteq> set (mutation_requests evs2)"
            "dry_run \<longrightarrow> update_targets evs2 = []"
            "r2 = Some (Inr ()) \<longrightarrow> mutation_requests evs2 = child_ids cs \<and>
               (\<not> dry_run \<longrightarrow> set (update_targets evs2) = set (child_ids cs))"
          by simp_all
        have mr: "mutation_requests tr = folder_id # mutation_requests evs2"
          using tr tr2 evs1 t1 f by simp
        have ut: "update_targets tr = update_targets tr1 @ update_targets evs2"
          using tr tr2 evs1 f by simp
        have ex: "\<exists>tr0 tr1 cs'. prefix tr1 tr \<and> list_targets tr0 = [] \<and>
           list_children n sv folder_id tr0 = (tr1, Some (Inr cs')) \<and> prefix ms (child_ids cs')"
          if "mutation_requests tr = folder_id # ms" for ms
          using that mr c'(2) pre t1(1) lc cs
          by (intro exI[of _ tr1] exI[of _ tr1'] exI[of _ cs]) auto
        have complete: "\<exists>tr0 tr1 cs'. prefix tr1 tr \<and> list_targets tr0 = [] \<and>
           list_children n sv folder_id tr0 = (tr1, Some (Inr cs')) \<and>
           mutation_requests tr = folder_id # child_ids cs' \<and>
           (\<not> dry_run \<longrightarrow> set (update_targets tr) = insert folder_id (set (child_ids cs')))"
          if "r = Some (Inr ())"
        proof -
          from that r c'(5) have "mutation_requests evs2 = child_ids cs"
            "\<not> dry_run \<longrightarrow> set (update_targets evs2) = set (child_ids cs)" by auto
          with mr ut ne have "mutation_requests tr = folder_id # child_ids cs"
            "\<not> dry_run \<longrightarrow> set (update_targets tr) = insert folder_id (set (child_ids cs))"
            by auto
          with pre t1(1) lc cs show ?thesis
            by (intro exI[of _ tr1] exI[of _ tr1'] exI[of _ cs]) auto
        qed
        have "set (list_targets tr) \<subseteq> {folder_id}"
          using tr tr2 evs1 t1 f c' by simp
        moreover have "\<exists>ms. mutation_requests tr = folder_id # ms" using mr by blast
        moreover have "set (update_targets tr) \<subseteq> set (mutation_requests tr)"
          using ut mr t1(3) c'(3) by auto
        moreover have "dry_run \<longrightarrow> update_targets tr = []" using ut t1(4) c'(4) by simp
        ultimately show ?thesis using ex complete by blast
      next
        case False
        with c have e: "evs2 = []" "r2 \<noteq> Some (Inr ())"
          by (auto split: option.splits sum.splits)
        then have "mutation_requests tr = [folder_id]" "update_targets tr = update_targets tr1"
          "set (list_targets tr) \<subseteq> {folder_id}"
          using tr tr2 evs1 t1 f by simp_all
        with t1 e r show ?thesis by auto
      qed
    qed
  qed
qed

text \<open>
  Witness for C3: the scenario of the spec, not recursive. The run lists \<open>R\<close> only and
  mutates \<open>R\<close>, \<open>folderA\<close> and \<open>file1\<close>: three update requests, \<open>file2\<close> untouched.
\<close>

theorem non_recursive_run_witness:
  "snd (snd (scenario_run False False)) = Some (Inr ()) \<and>
   list_targets (fst (scenario_run False False)) = [''R''] \<and>
   mutation_requests (fst (scenario_run False False)) = [''R'', ''folderA'', ''file1''] \<and>
   update_targets (fst (scenario_run False False)) = [''R'', ''folderA'', ''file1''] \<and>
   set (list_targets (fst (scenario_run False False))) \<subseteq> {''R''} \<and>
   (\<exists>tr0 tr1 cs. prefix tr1 (fst (scenario_run False False)) \<and> list_targets tr0 = [] \<and>
      list_children 10 (static_env scenario_kids) ''R'' tr0 = (tr1, Some (Inr cs)) \<and>
      mutation_requests (fst (scenario_run False False)) = ''R'' # child_ids cs \<and>
      set (update_targets (fst (scenario_run False False))) = insert ''R'' (set (child_ids cs)))"
proof -
  obtain tr visited r where run:
    "update_folder_and_contents 10 (static_env scenario_kids) ''R'' ''T'' False False = (tr, visited, r)"
    by (cases "update_folder_and_contents 10 (static_env scenario_kids) ''R'' ''T'' False False")
  have ev: "snd (snd (scenario_run False False)) = Some (Inr ())"
    "list_targets (fst (scenario_run False False)) = [''R'']"
    "mutation_requests (fst (scenario_run False False)) = [''R'', ''folderA'', ''file1'']"
    "update_targets (fst (scenario_run False False)) = [''R'', ''folderA'', ''file1'']"
    by code_simp+
  from run have s: "scenario_run False False = (tr, visited, r)" by (simp add: scenario_run_def)
  with ev(1) have r: "r = Some (Inr ())" by simp
  from non_recursive_run[OF run] have 1: "set (list_targets tr) \<subseteq> {''R''}"
    by (rule conjunct1)
  from non_recursive_run[OF run] have "r = Some (Inr ()) \<longrightarrow>
     (\<exists>tr0 tr1 cs. prefix tr1 tr \<and> list_targets tr0 = [] \<and>
      list_children 10 (static_env scenario_kids) ''R'' tr0 = (tr1, Some (Inr cs)) \<and>
      mutation_requests tr = ''R'' # child_ids cs \<and>
      (\<not> False \<longrightarrow> set (update_targets tr) = insert ''R'' (set (child_ids cs))))"
    by (elim conjE)
  from this r have "\<exists>tr0 tr1 cs. prefix tr1 tr \<and> list_targets tr0 = [] \<and>
      list_children 10 (static_env scenario_kids) ''R'' tr0 = (tr1, Some (Inr cs)) \<and>
      mutation_requests tr = ''R'' # child_ids cs \<and>
      (\<not> False \<longrightarrow> set (update_targets tr) = insert ''R'' (set (child_ids cs)))"
    by (rule mp)
  then have 2: "\<exists>tr0 tr1 cs. prefix tr1 tr \<and> list_targets tr0 = [] \<and>
      list_children 10 (static_env scenario_kids) ''R'' tr0 = (tr1, Some (Inr cs)) \<and>
      mutation_requests tr = ''R'' # child_ids cs \<and>
      set (update_targets tr) = insert ''R'' (set (child_ids cs))"
    by (simp only: simp_thms)
  have tr: "fst (scenario_run False False) = tr" using s by simp
  show ?thesis unfolding tr using ev[unfolded tr] 1 2 by (intro conjI)
qed

lemma list_children_loop_chain:
  "list_children_loop n sv parent_id acc page_token tr = (tr', Some (Inr cs)) \<Longrightarrow>
   \<exists>rs. page_chain sv parent_id tr page_token rs tr' \<and> length rs \<le> n \<and>
        cs = acc @ concat (map page_files rs)"
proof (induction n arbitrary: acc page_token tr)
  case 0
  then show ?case by simp
next
  case (Suc n)
  show ?case
  proof (cases "files_list sv tr parent_id page_token")
    case (Inl e)
    with Suc.prems show ?thesis by simp
  next
    case (Inr response)
    show ?thesis
    proof (cases "nextPageToken response = None \<or> nextPageToken response = Some []")
      case True
      with Inr Suc.prems have "tr' = tr @ [FilesList parent_id page_token]"
        "cs = acc @ page_files response"
        by (auto simp: Let_def page_files_def)
      with last_page[OF Inr True] show ?thesis
        by (intro exI[of _ "[response]"]) simp
    next
      case False
      then obtain t where t: "nextPageToken response = Some t" "t \<noteq> []" by auto
      with Inr Suc.prems have
        "list_children_loop n sv parent_id (acc @ page_files response) (Some t)
           (tr @ [FilesList parent_id page_token]) = (tr', Some (Inr cs))"
        by (simp add: Let_def page_files_def)
      from Suc.IH[OF this] obtain rs where
        "page_chain sv parent_id (tr @ [FilesList parent_id page_token]) (Some t) rs tr'"
        "length rs \<le> n" "cs = (acc @ page_files response) @ concat (map page_files rs)"
        by blast
      with next_page[OF Inr t] show ?thesis
        by (intro exI[of _ "response # rs"]) simp
    qed
  qed
qed

lemma page_chain_list_children_loop:
  "page_chain sv parent_id tr page_token rs tr' \<Longrightarrow> length rs \<le> n \<Longrightarrow>
   list_children_loop n sv parent_id acc page_token tr =
     (tr', Some (Inr (acc @ concat (map page_files rs))))"
proof (induction arbitrary: n acc rule: page_chain.induct)
  case (last_page sv tr parent_id page_token response)
  then obtain m where "n = Suc m" by (cases n) auto
  with last_page show ?case by (auto simp: Let_def page_files_def)
next
  case (next_page sv tr parent_id page_token response t rs tr')
  then obtain m where m: "n = Suc m" "length rs \<le> m" by (cases n) auto
  from next_page.IH[OF m(2), of "acc @ page_files response"] next_page.hyps m(1)
  show ?case by (simp add: Let_def page_files_def)
qed

lemma page_chain_requests:
  "page_chain sv parent_id tr page_token rs tr' \<Longrightarrow>
   \<exists>toks. length toks = length rs \<and> tr' = tr @ map (FilesList parent_id) toks"
proof (induction rule: page_chain.induct)
  case (last_page sv tr parent_id page_token response)
  show ?case by (intro exI[of _ "[page_token]"]) simp
next
  case (next_page sv tr parent_id page_token response t rs tr')
  then obtain toks where "length toks = length rs"
    "tr' = (tr @ [FilesList parent_id page_token]) @ map (FilesList parent_id) toks"
    by blast
  then show ?case by (intro exI[of _ "page_token # toks"]) simp
qed

lemma list_children_loop_failure:
  "list_children_loop n sv parent_id acc page_token tr = (tr', Some (Inl e)) \<Longrightarrow>
   \<exists>tr0 tok. tr' = tr0 @ [FilesList parent_id tok] \<and> files_list sv tr0 parent_id tok = Inl e"
proof (induction n arbitrary: acc page_token tr)
  case 0
  then show ?case by simp
next
  case (Suc n)
  show ?case
  proof (cases "files_list sv tr parent_id page_token")
    case (Inl e')
    with Suc.prems show ?thesis by auto
  next
    case (Inr response)
    with Suc.prems Suc.IH show ?thesis
      by (auto simp: Let_def split: if_splits)
  qed
qed

section \<open>The claim about the paginated lister\<close>

text \<open>
  C8. \<open>list_children\<close> returns a list of children exactly when the service delivers a
  complete chain of pages from the first request on (within the number of requests the
  model allows), and the list returned is the concatenation of the files of all the pages
  of the chain, in order; the requests sent are one per page. When a request fails, the
  failure is returned and that request is the last event of the trace: it is not sent
  again, and no partial list is returned.
\<close>

theorem list_children_pages:
  "(list_children n sv parent_id tr = (tr', Some (Inr cs)) \<longleftrightarrow>
      (\<exists>rs. page_chain sv parent_id tr None rs tr' \<and> length rs \<le> n \<and>
            cs = concat (map page_files rs)))
   \<and> (page_chain sv parent_id tr None rs tr' \<longrightarrow>
        (\<exists>toks. length toks = length rs \<and> tr' = tr @ map (FilesList parent_id) toks))
   \<and> (list_children n sv parent_id tr = (tr', Some (Inl e)) \<longrightarrow>
        (\<exists>tr0 page_token. tr' = tr0 @ [FilesList parent_id page_token] \<and>
           files_list sv tr0 parent_id page_token = Inl e))"
proof (intro conjI impI iffI)
  assume "list_children n sv parent_id tr = (tr', Some (Inr cs))"
  from list_children_loop_chain[OF this[unfolded list_children_def]]
  show "\<exists>rs. page_chain sv parent_id tr None rs tr' \<and> length rs \<le> n \<and>
            cs = concat (map page_files rs)"
    by simp
next
  assume "\<exists>rs. page_chain sv parent_id tr None rs tr' \<and> length rs \<le> n \<and>
            cs = concat (map page_files rs)"
  then show "list_children n sv parent_id tr = (tr', Some (Inr cs))"
    using page_chain_list_children_loop[of sv parent_id tr None _ tr' n "[]"]
    by (auto simp: list_children_def)
next
  assume "page_chain sv parent_id tr None rs tr'"
  then show "\<exists>toks. length toks = length rs \<and> tr' = tr @ map (FilesList parent_id) toks"
    by (rule page_chain_requests)
next
  assume "list_children n sv parent_id tr = (tr', Some (Inl e))"
  then show "\<exists>tr0 page_token. tr' = tr0 @ [FilesList parent_id page_token] \<and>
           files_list sv tr0 parent_id page_token = Inl e"
    unfolding list_children_def by (rule list_children_loop_failure)
qed

text \<open>
  Witness for C8: a listing of three pages is returned whole, after three requests; a
  listing whose second page fails raises after two requests.
\<close>

theorem list_children_pages_witness:
  "list_children 5 paged_env ''P'' [] =
     ([FilesList ''P'' None, FilesList ''P'' (Some ''t1''), FilesList ''P'' (Some ''t2'')],
      Some (Inr [file_entry ''a'', file_entry ''b'', file_entry ''c''])) \<and>
   (\<exists>rs. page_chain paged_env ''P'' [] None rs
           [FilesList ''P'' None, FilesList ''P'' (Some ''t1''), FilesList ''P'' (Some ''t2'')] \<and>
         length rs \<le> 5 \<and>
         [file_entry ''a'', file_entry ''b'', file_entry ''c''] = concat (map page_files rs) \<and>
         (\<exists>toks. length toks = length rs \<and>
            [FilesList ''P'' None, FilesList ''P'' (Some ''t1''), FilesList ''P'' (Some ''t2'')] =
              [] @ map (FilesList ''P'') toks)) \<and>
   list_children 5 broken_page_env ''P'' [] =
     ([FilesList ''P'' None, FilesList ''P'' (Some ''t1'')], Some (Inl (HttpError (Some 500)))) \<and>
   (\<exists>tr0 page_token.
      [FilesList ''P'' None, FilesList ''P'' (Some ''t1'')] = tr0 @ [FilesList ''P'' page_token] \<and>
      files_list broken_page_env tr0 ''P'' page_token = Inl (HttpError (Some 500)))"
proof -
  let ?tr = "[FilesList ''P'' None, FilesList ''P'' (Some ''t1''), FilesList ''P'' (Some ''t2'')]"
  let ?cs = "[file_entry ''a'', file_entry ''b'', file_entry ''c'']"
  have 1: "list_children 5 paged_env ''P'' [] = (?tr, Some (Inr ?cs))" by code_simp
  have 2: "list_children 5 broken_page_env ''P'' [] =
     ([FilesList ''P'' None, FilesList ''P'' (Some ''t1'')], Some (Inl (HttpError (Some 500))))"
    by code_simp
  from 1 list_children_pages[of 5 paged_env "''P''" "[]" ?tr ?cs]
  obtain rs where rs: "page_chain paged_env ''P'' [] None rs ?tr" "length rs \<le> 5"
    "?cs = concat (map page_files rs)"
    by blast
  from rs(1) list_children_pages[of 5 paged_env "''P''" "[]" ?tr ?cs rs]
  have 3: "\<exists>toks. length toks = length rs \<and> ?tr = [] @ map (FilesList ''P'') toks"
    by blast
  from 2 list_children_pages[of 5 broken_page_env "''P''" "[]"
      "[FilesList ''P'' None, FilesList ''P'' (Some ''t1'')]" _ _ "HttpError (Some 500)"]
  have 4: "\<exists>tr0 page_token.
      [FilesList ''P'' None, FilesList ''P'' (Some ''t1'')] = tr0 @ [FilesList ''P'' page_token] \<and>
      files_list broken_page_env tr0 ''P'' page_token = Inl (HttpError (Some 500))"
    by blast
  from 1 2 rs 3 4 show ?thesis by blast
qed

lemma finish_run:
  "(case (tr2, visited, r) of
      (tr2, visited, Some (Inr u)) \<Rightarrow> (tr2 @ [Log LogAllDone], visited, Some (Inr u))
    | (tr2, visited, r) \<Rightarrow> (tr2, visited, r)) =
   (tr2 @ (if r = Some (Inr ()) then [Log LogAllDone] else []), visited, r)"
  by (auto split: option.splits sum.splits)

text \<open>
  C9. Against a service whose listings do not change during the run, the dry run sends
  every listing request that the real run sends, in the same order, and sends no update
  request; when the real run completes, the dry run completes too, with the same listing
  requests and the same set of expanded containers. (A real run stopped by a failing
  update has sent a part of the listing requests of the dry run.)
\<close>

theorem dry_run_lists_like_real_run:
  assumes "static_listing sv"
  shows "prefix (list_requests (fst (update_folder_and_contents n sv folder_id new_time recursive False)))
           (list_requests (fst (update_folder_and_contents n sv folder_id new_time recursive True)))
     \<and> update_targets (fst (update_folder_and_contents n sv folder_id new_time recursive True)) = []
     \<and> (snd (snd (update_folder_and_contents n sv folder_id new_time recursive False)) = Some (Inr ()) \<longrightarrow>
          list_requests (fst (update_folder_and_contents n sv folder_id new_time recursive True)) =
            list_requests (fst (update_folder_and_contents n sv folder_id new_time recursive False)) \<and>
          snd (snd (update_folder_and_contents n sv folder_id new_time recursive True)) = Some (Inr ()) \<and>
          fst (snd (update_folder_and_contents n sv folder_id new_time recursive True)) =
            fst (snd (update_folder_and_contents n sv folder_id new_time recursive False)))"
proof -
  define trd0 where "trd0 = [Log (LogUpdatingFolder folder_id new_time),
    Log (LogDryRun folder_id [(''modifiedTime'', new_time)])]"
  obtain trd' vd rd where wd: "walk n sv new_time recursive True [folder_id] {} trd0 = (trd', vd, rd)"
    by (cases "walk n sv new_time recursive True [folder_id] {} trd0")
  have dry: "update_folder_and_contents n sv folder_id new_time recursive True =
      (trd' @ (if rd = Some (Inr ()) then [Log LogAllDone] else []), vd, rd)"
    using wd
    by (auto simp: update_folder_and_contents_def retryable_update_def trd0_def
          split: option.splits sum.splits)
  from walk_expansions[OF wd] obtain ed0 where ed0: "trd' = trd0 @ ed0" "update_targets ed0 = []"
    by auto
  have ld: "list_requests (fst (update_folder_and_contents n sv folder_id new_time recursive True)) =
      list_requests ed0"
    and ud: "update_targets (fst (update_folder_and_contents n sv folder_id new_time recursive True)) = []"
    unfolding dry using ed0 by (simp_all add: trd0_def)
  from root_phase[of folder_id new_time False n sv recursive]
  obtain tr1 evs0 r0 where rp: "tr1 = Log (LogUpdatingFolder folder_id new_time) # evs0"
     "list_targets evs0 = []"
     "case r0 of
        Inl e \<Rightarrow>
          update_folder_and_contents n sv folder_id new_time recursive False = (tr1, {}, Some (Inl e))
      | Inr (u :: unit) \<Rightarrow>
          (\<not> False \<longrightarrow> update_targets evs0 \<noteq> []) \<and>
          update_folder_and_contents n sv folder_id new_time recursive False =
            (case walk n sv new_time recursive False [folder_id] {} tr1 of
               (tr2, visited, Some (Inr u)) \<Rightarrow> (tr2 @ [Log LogAllDone], visited, Some (Inr u))
             | (tr2, visited, r) \<Rightarrow> (tr2, visited, r))"
    by blast
  have l1: "list_requests tr1 = []" using rp(1,2) by (simp add: list_requests_no_list)
  show ?thesis
  proof (cases r0)
    case (Inl e)
    with rp(3) have "update_folder_and_contents n sv folder_id new_time recursive False =
        (tr1, {}, Some (Inl e))" by simp
    with l1 ud show ?thesis by simp
  next
    case (Inr u)
    obtain trr' vr rr where wr: "walk n sv new_time recursive False [folder_id] {} tr1 = (trr', vr, rr)"
      by (cases "walk n sv new_time recursive False [folder_id] {} tr1")
    from rp(3) Inr wr have real: "update_folder_and_contents n sv folder_id new_time recursive False =
        (trr' @ (if rr = Some (Inr ()) then [Log LogAllDone] else []), vr, rr)"
      by (auto split: option.splits sum.splits)
    from walk_dry_vs_real[OF assms wr wd] obtain er ed where c:
      "trr' = tr1 @ er" "trd' = trd0 @ ed" "prefix (list_requests er) (list_requests ed)"
      "rr = Some (Inr ()) \<longrightarrow> list_requests ed = list_requests er \<and> rd = Some (Inr ()) \<and> vd = vr"
      by blast
    from c(2) ed0(1) have e: "ed = ed0" by simp
    from c(1) l1 have lr:
      "list_requests (fst (update_folder_and_contents n sv folder_id new_time recursive False))
        = list_requests er"
      unfolding real by simp
    have pr: "snd (snd (update_folder_and_contents n sv folder_id new_time recursive False)) = rr"
      "fst (snd (update_folder_and_contents n sv folder_id new_time recursive False)) = vr"
      by (simp_all add: real)
    have pd: "snd (snd (update_folder_and_contents n sv folder_id new_time recursive True)) = rd"
      "fst (snd (update_folder_and_contents n sv folder_id new_time recursive True)) = vd"
      by (simp_all add: dry)
    show ?thesis unfolding pr pd lr ld ud using c(3,4) e by simp
  qed
qed

text \<open>
  Witness for C9: on the scenario of the spec, the recursive dry run sends the same two
  listing requests as the real run, and no update request.
\<close>

theorem dry_run_lists_like_real_run_witness:
  "static_listing (static_env scenario_kids) \<and>
   snd (snd (scenario_run True False)) = Some (Inr ()) \<and>
   prefix (list_requests (fst (scenario_run True False))) (list_requests (fst (scenario_run True True))) \<and>
   update_targets (fst (scenario_run True True)) = [] \<and>
   list_requests (fst (scenario_run True True)) = list_requests (fst (scenario_run True False)) \<and>
   snd (snd (scenario_run True True)) = Some (Inr ()) \<and>
   fst (snd (scenario_run True True)) = fst (snd (scenario_run True False)) \<and>
   list_requests (fst (scenario_run True True)) = [FilesList ''R'' None, FilesList ''folderA'' None] \<and>
   update_targets (fst (scenario_run True False)) = [''R'', ''folderA'', ''file1'', ''file2'']"
proof -
  have h: "static_listing (static_env scenario_kids)"
    by (simp add: static_listing_def static_env_def)
  have ev: "snd (snd (scenario_run True False)) = Some (Inr ())"
    "list_requests (fst (scenario_run True True)) = [FilesList ''R'' None, FilesList ''folderA'' None]"
    "update_targets (fst (scenario_run True False)) = [''R'', ''folderA'', ''file1'', ''file2'']"
    by code_simp+
  note t = dry_run_lists_like_real_run[OF h, of 10 "''R''" "''T''" True, folded scenario_run_def]
  from t have 1: "prefix (list_requests (fst (scenario_run True False)))
      (list_requests (fst (scenario_run True True)))"
    by (rule conjunct1)
  from t have 2: "update_targets (fst (scenario_run True True)) = []"
    by (elim conjE)
  from t have "snd (snd (scenario_run True False)) = Some (Inr ()) \<longrightarrow>
      list_requests (fst (scenario_run True True)) = list_requests (fst (scenario_run True False)) \<and>
      snd (snd (scenario_run True True)) = Some (Inr ()) \<and>
      fst (snd (scenario_run True True)) = fst (snd (scenario_run True False))"
    by (elim conjE)
  from this ev(1) have 3:
     "list_requests (fst (scenario_run True True)) = list_requests (fst (scenario_run True False)) \<and>
      snd (snd (scenario_run True True)) = Some (Inr ()) \<and>
      fst (snd (scenario_run True True)) = fst (snd (scenario_run True False))"
    by (rule mp)
  from h ev 1 2 3 show ?thesis by (intro conjI) (elim conjE, assumption)+
qed

lemma steps_simps [simp]:
  "steps [] = []"
  "steps (e # tr) = step_of e @ steps tr"
  "steps (tr @ tr') = steps tr @ steps tr'"
  by (simp_all add: steps_def)

lemma steps_no_list: "list_targets evs = [] \<Longrightarrow> steps evs = map Mutated (mutation_requests evs)"
proof (induction evs)
  case Nil
  then show ?case by simp
next
  case (Cons e evs)
  show ?case
  proof (cases e)
    case (Log l)
    with Cons show ?thesis by (cases l) auto
  qed (use Cons in auto)
qed

lemma list_children_steps:
  assumes "list_children (Suc n) sv parent_id tr = (tr', r)"
  shows "\<exists>evs. tr' = tr @ evs \<and> steps evs = [Expanded parent_id]"
proof -
  from assms list_children_loop_trace[of "Suc n" sv parent_id "[]" None tr tr' r]
  obtain toks where "tr' = tr @ FilesList parent_id None # map (\<lambda>t. FilesList parent_id (Some t)) toks"
    by (auto simp: list_children_def)
  moreover have "steps (map (\<lambda>t. FilesList parent_id (Some t)) toks) = []"
    by (induction toks) auto
  ultimately show ?thesis by auto
qed

lemma list_children_fuel:
  assumes "list_children m sv parent_id tr = (tr', Some (Inr cs))" "m \<le> n"
  shows "list_children n sv parent_id tr = (tr', Some (Inr cs))"
proof -
  from assms(1) list_children_loop_chain[of m sv parent_id "[]" None tr tr' cs]
  obtain rs where "page_chain sv parent_id tr None rs tr'" "length rs \<le> m"
    "cs = concat (map page_files rs)"
    by (auto simp: list_children_def)
  with assms(2) page_chain_list_children_loop[of sv parent_id tr None rs tr' n "[]"]
  show ?thesis by (simp add: list_children_def)
qed

lemma listing_static:
  assumes "static_listing sv" "list_children m sv parent_id tr = (tr', Some (Inr cs))" "m \<le> n"
  shows "listing n sv parent_id = cs"
proof -
  from list_children_loop_static[OF assms(1), of m parent_id "[]" None]
  obtain evs res where "\<And>tr. list_children m sv parent_id tr = (tr @ evs, res)"
    unfolding list_children_def by blast
  from this[of tr] this[of "[]"] assms(2)
  have "list_children m sv parent_id [] = (evs, Some (Inr cs))" by simp
  from list_children_fuel[OF this assms(3)] show ?thesis by (simp add: listing_def)
qed

lemma walk_level:
  assumes st: "static_listing sv"
  shows "walk n sv new_time recursive dry_run (level @ acc) visited tr = (tr', visited'', Some (Inr ())) \<Longrightarrow>
     n \<le> N \<Longrightarrow>
     expand_level (listing N sv) recursive level visited = (ss, next_level, visited') \<Longrightarrow>
     \<exists>n' evs. n' + length level \<le> n \<and> steps evs = ss \<and>
       walk n' sv new_time recursive dry_run (acc @ next_level) visited' (tr @ evs) =
         (tr', visited'', Some (Inr ()))"
proof (induction level arbitrary: n acc visited tr ss next_level visited')
  case Nil
  then show ?case by (intro exI[of _ n] exI[of _ "[]"]) simp
next
  case (Cons c level)
  from Cons.prems(1) obtain m where n: "n = Suc m" by (cases n) auto
  note w = Cons.prems(1)[unfolded n append_Cons walk.simps(3)]
  show ?case
  proof (cases "c \<in> visited")
    case True
    with w have w': "walk m sv new_time recursive dry_run (level @ acc) visited tr =
        (tr', visited'', Some (Inr ()))" by simp
    from Cons.prems(3) True have
      e: "expand_level (listing N sv) recursive level visited = (ss, next_level, visited')" by simp
    from Cons.prems(2) n have "m \<le> N" by simp
    from Cons.IH[OF w' this e] obtain n' evs where
      "n' + length level \<le> m" "steps evs = ss"
      "walk n' sv new_time recursive dry_run (acc @ next_level) visited' (tr @ evs) =
         (tr', visited'', Some (Inr ()))"
      by blast
    with n show ?thesis by (intro exI[of _ n'] exI[of _ evs]) simp
  next
    case False
    obtain tr1 lr where lc: "list_children (Suc m) sv c tr = (tr1, lr)"
      by (cases "list_children (Suc m) sv c tr")
    from w False lc obtain cs where lr: "lr = Some (Inr cs)"
      by (cases lr) (auto split: sum.splits)
    from listing_static[OF st lc[unfolded lr]] Cons.prems(2) n
    have kids: "listing N sv c = cs" by simp
    from list_children_steps[OF lc] obtain e1 where e1: "tr1 = tr @ e1" "steps e1 = [Expanded c]"
      by blast
    obtain ss0 next0 where
      e0: "expand_level (listing N sv) recursive level (insert c visited) = (ss0, next0, visited')"
      and ss: "ss = Expanded c # map Mutated (child_ids cs) @ ss0"
      and nx: "next_level = (if recursive then folder_ids cs else []) @ next0"
      using Cons.prems(3) False kids by (auto split: prod.splits)
    from Cons.prems(2) n have mN: "m \<le> N" by simp
    show ?thesis
    proof (cases "cs = []")
      case True
      with w False lc lr have w': "walk m sv new_time recursive dry_run (level @ acc)
          (insert c visited) (tr1 @ [Log (LogNoChildren c)]) = (tr', visited'', Some (Inr ()))"
        by simp
      from Cons.IH[OF w' mN e0] obtain n' evs where
        "n' + length level \<le> m" "steps evs = ss0"
        "walk n' sv new_time recursive dry_run (acc @ next0) visited'
           ((tr1 @ [Log (LogNoChildren c)]) @ evs) = (tr', visited'', Some (Inr ()))"
        by blast
      moreover from nx True have "next_level = next0" by simp
      moreover from ss True have "ss = Expanded c # ss0" by simp
      ultimately show ?thesis using n e1
        by (intro exI[of _ n'] exI[of _ "e1 @ [Log (LogNoChildren c)] @ evs"]) simp
    next
      case ne: False
      obtain tr2 ur where uc:
        "update_children sv new_time recursive dry_run cs (level @ acc) tr1 = (tr2, ur)"
        by (cases "update_children sv new_time recursive dry_run cs (level @ acc) tr1")
      from w False lc lr ne uc obtain q' where ur: "ur = Inr q'"
        by (cases ur) auto
      from update_children_trace[OF uc] ur obtain e2 where e2: "tr2 = tr1 @ e2"
        "list_targets e2 = []" "mutation_requests e2 = child_ids cs"
        "q' = (level @ acc) @ (if recursive then folder_ids cs else [])"
        by blast
      from e2(2,3) have s2: "steps e2 = map Mutated (child_ids cs)"
        by (simp add: steps_no_list)
      from w False lc lr ne uc ur e2(4) have w':
        "walk m sv new_time recursive dry_run
           (level @ (acc @ (if recursive then folder_ids cs else [])))
           (insert c visited) tr2 = (tr', visited'', Some (Inr ()))"
        by simp
      from Cons.IH[OF w' mN e0] obtain n' evs where
        "n' + length level \<le> m" "steps evs = ss0"
        "walk n' sv new_time recursive dry_run
           ((acc @ (if recursive then folder_ids cs else [])) @ next0) visited' (tr2 @ evs) =
             (tr', visited'', Some (Inr ()))"
        by blast
      with n e1 e2(1) s2 ss nx show ?thesis
        by (intro exI[of _ n'] exI[of _ "e1 @ e2 @ evs"]) simp
    qed
  qed
qed

lemma walk_levels:
  assumes st: "static_listing sv"
  shows "walk n sv new_time recursive dry_run level visited tr = (tr', visited'', Some (Inr ())) \<Longrightarrow>
     n \<le> N \<Longrightarrow> n \<le> d \<Longrightarrow>
     \<exists>evs. tr' = tr @ evs \<and>
       steps evs = concat (bfs_levels d (listing N sv) recursive level visited)"
proof (induction n arbitrary: d level visited tr rule: less_induct)
  case (less n)
  show ?case
  proof (cases "level = []")
    case True
    with less.prems(1) have "tr' = tr" by simp
    with True show ?thesis by (cases d) auto
  next
    case False
    obtain ss next_level visited' where
      e: "expand_level (listing N sv) recursive level visited = (ss, next_level, visited')"
      by (cases "expand_level (listing N sv) recursive level visited")
    from walk_level[OF st, of n new_time recursive dry_run level "[]", simplified, OF less.prems(1,2) e]
    obtain n' evs where n': "n' + length level \<le> n" "steps evs = ss"
      "walk n' sv new_time recursive dry_run next_level visited' (tr @ evs) =
         (tr', visited'', Some (Inr ()))"
      by auto
    from False n'(1) have lt: "n' < n" by (cases level) auto
    with less.prems(3) obtain d' where d: "d = Suc d'" "n' \<le> d'" by (cases d) auto
    from lt less.prems(2) have "n' \<le> N" by simp
    from less.IH[OF lt n'(3) this d(2)] obtain evs' where
      "tr' = (tr @ evs) @ evs'"
      "steps evs' = concat (bfs_levels d' (listing N sv) recursive next_level visited')"
      by blast
    with n'(2) e d(1) False show ?thesis
      by (intro exI[of _ "evs @ evs'"]) simp
  qed
qed

lemma walk_first_step:
  assumes "walk n sv new_time recursive dry_run (c # queue) visited tr = (tr', visited', r)"
    and "c \<notin> visited"
  shows "\<exists>evs. tr' = tr @ evs \<and> (evs = [] \<or> (\<exists>ss. steps evs = Expanded c # ss))"
proof (cases n)
  case 0
  with assms show ?thesis by simp
next
  case (Suc m)
  obtain tr1 lr where lc: "list_children (Suc m) sv c tr = (tr1, lr)"
    by (cases "list_children (Suc m) sv c tr")
  from list_children_steps[OF lc] obtain e1 where e1: "tr1 = tr @ e1" "steps e1 = [Expanded c]"
    by blast
  note w = assms(1)[unfolded Suc walk.simps(3)]
  have "\<exists>e2. tr' = tr1 @ e2"
  proof (cases "\<exists>cs. lr = Some (Inr cs)")
    case False
    with w assms(2) lc have "tr' = tr1" by (auto split: option.splits sum.splits)
    then show ?thesis by simp
  next
    case True
    then obtain cs where cs: "lr = Some (Inr cs)" by blast
    show ?thesis
    proof (cases "cs = []")
      case True
      with w assms(2) lc cs have "walk m sv new_time recursive dry_run queue (insert c visited)
          (tr1 @ [Log (LogNoChildren c)]) = (tr', visited', r)" by simp
      from walk_extends[OF this] show ?thesis by auto
    next
      case False
      obtain tr2 ur where uc: "update_children sv new_time recursive dry_run cs queue tr1 = (tr2, ur)"
        by (cases "update_children sv new_time recursive dry_run cs queue tr1")
      from update_children_trace[OF uc] obtain e2 where e2: "tr2 = tr1 @ e2" by blast
      show ?thesis
      proof (cases ur)
        case (Inl e)
        with w assms(2) lc cs False uc have "tr' = tr2" by simp
        with e2 show ?thesis by simp
      next
        case (Inr q')
        with w assms(2) lc cs False uc have
          "walk m sv new_time recursive dry_run q' (insert c visited) tr2 = (tr', visited', r)"
          by simp
        from walk_extends[OF this] e2 show ?thesis by auto
      qed
    qed
  qed
  then obtain e2 where "tr' = tr1 @ e2" by blast
  with e1 show ?thesis by (intro exI[of _ "e1 @ e2"]) simp
qed

lemma retry_attempts_first:
  "\<exists>evs. fst (retry_attempts sv file_id body flds max_retries (a # as) tr) =
     tr @ FilesUpdate file_id body flds # evs"
proof (cases "files_update sv tr file_id body flds")
  case (Inr resp)
  then show ?thesis by simp
next
  case (Inl e)
  show ?thesis
  proof (cases "transient_failure e")
    case False
    from retry_attempts_fatal[OF Inl False, of max_retries a as] show ?thesis by auto
  next
    case True
    show ?thesis
    proof (cases "a < 1024")
      case False
      with retry_attempts_overflow[OF Inl True, of a max_retries as] show ?thesis by simp
    next
      case a: True
      from retry_attempts_transient[OF Inl True a, of max_retries as]
      obtain st s where eq: "retry_attempts sv file_id body flds max_retries (a # as) tr =
          retry_attempts sv file_id body flds max_retries as
            (tr @ [FilesUpdate file_id body flds,
                   Log (LogTransient st (int a + 1) max_retries s), Sleep s])"
        by blast
      obtain tr' r where r: "retry_attempts sv file_id body flds max_retries as
            (tr @ [FilesUpdate file_id body flds,
                   Log (LogTransient st (int a + 1) max_retries s), Sleep s]) = (tr', r)"
        by (cases "retry_attempts sv file_id body flds max_retries as
            (tr @ [FilesUpdate file_id body flds,
                   Log (LogTransient st (int a + 1) max_retries s), Sleep s])")
      from retry_attempts_trace[OF r] obtain evs where
        "tr' = (tr @ [FilesUpdate file_id body flds,
                   Log (LogTransient st (int a + 1) max_retries s), Sleep s]) @ evs"
        by blast
      with eq r show ?thesis by simp
    qed
  qed
qed

lemma root_update_first:
  "\<exists>evs. fst (retryable_update sv file_id body flds False DEFAULT_RETRIES tr) =
     tr @ FilesUpdate file_id body flds # evs"
proof -
  have "[0..<nat DEFAULT_RETRIES] = 0 # [1..<5]"
    by (simp add: DEFAULT_RETRIES_def upt_conv_Cons)
  with retry_attempts_first[of sv file_id body flds DEFAULT_RETRIES 0 "[1..<5]" tr]
  show ?thesis by (simp add: retryable_update_def)
qed

lemma run_extends_root_update:
  "\<exists>more. fst (update_folder_and_contents n sv folder_id new_time recursive dry_run) =
     fst (retryable_update sv folder_id [(''modifiedTime'', new_time)]
             ''id, name, modifiedTime'' dry_run DEFAULT_RETRIES
             [Log (LogUpdatingFolder folder_id new_time)]) @ more"
proof -
  obtain tr0 r0 where ru: "retryable_update sv folder_id [(''modifiedTime'', new_time)]
             ''id, name, modifiedTime'' dry_run DEFAULT_RETRIES
             [Log (LogUpdatingFolder folder_id new_time)] = (tr0, r0)"
    by (cases "retryable_update sv folder_id [(''modifiedTime'', new_time)]
             ''id, name, modifiedTime'' dry_run DEFAULT_RETRIES
             [Log (LogUpdatingFolder folder_id new_time)]")
  show ?thesis
  proof (cases r0)
    case (Inl e)
    with ru show ?thesis by (simp add: update_folder_and_contents_def)
  next
    case (Inr folder_resp)
    define tr1 where "tr1 = (case folder_resp of
                       None \<Rightarrow> tr0
                     | Some r \<Rightarrow>
                         if r = [] then tr0
                         else tr0 @ [Log (LogUpdatedFolder (map_of r ''name'')
                                            (map_of r ''modifiedTime''))])"
    have t1: "\<exists>l. tr1 = tr0 @ l" by (auto simp: tr1_def split: option.splits)
    obtain tr2 visited2 r2 where wk:
      "walk n sv new_time recursive dry_run [folder_id] {} tr1 = (tr2, visited2, r2)"
      by (cases "walk n sv new_time recursive dry_run [folder_id] {} tr1")
    from walk_extends[OF wk] t1 obtain l where "tr2 = tr0 @ l" by auto
    moreover have "\<exists>fin. fst (update_folder_and_contents n sv folder_id new_time recursive dry_run) =
        tr2 @ fin"
      using ru Inr wk
      by (auto simp: update_folder_and_contents_def tr1_def Let_def split: option.splits sum.splits)
    ultimately show ?thesis using ru by auto
  qed
qed

text \<open>
  C2. In every run, recursive or not, dry or not, and however it ends, the first step is
  the mutation of the root, and the step after it, if there is one, is the expansion of
  the root, with which the loop begins; a run that is not dry starts its update requests
  with one for the root. Against a service whose listings do not change during the run,
  the steps of a completed run are the mutation of the root followed by the steps of the
  breadth-first order, level by level: the containers of depth \<open>d\<close> are expanded in order
  and the children of each (objects of depth \<open>d + 1\<close>) are mutated in the order of its
  listing, before any container of depth \<open>d + 1\<close> is expanded.
\<close>

theorem breadth_first_run:
  "(\<exists>ss. steps (fst (update_folder_and_contents n sv folder_id new_time recursive dry_run)) =
           Mutated folder_id # ss \<and>
         (ss = [] \<or> (\<exists>ss'. ss = Expanded folder_id # ss')))
   \<and> (\<not> dry_run \<longrightarrow>
        (\<exists>us. update_targets (fst (update_folder_and_contents n sv folder_id new_time recursive dry_run)) =
           folder_id # us))
   \<and> (static_listing sv \<and>
        snd (snd (update_folder_and_contents n sv folder_id new_time recursive dry_run)) = Some (Inr ()) \<longrightarrow>
        steps (fst (update_folder_and_contents n sv folder_id new_time recursive dry_run)) =
          Mutated folder_id # concat (bfs_levels n (listing n sv) recursive [folder_id] {}))"
proof -
  from root_phase[of folder_id new_time dry_run n sv recursive]
  obtain tr1 evs0 r0 where rp: "tr1 = Log (LogUpdatingFolder folder_id new_time) # evs0"
     "list_targets evs0 = []" "mutation_requests evs0 = []"
     "set (update_targets evs0) \<subseteq> {folder_id}"
     "case r0 of
        Inl e \<Rightarrow>
          update_folder_and_contents n sv folder_id new_time recursive dry_run = (tr1, {}, Some (Inl e))
      | Inr (u :: unit) \<Rightarrow>
          (\<not> dry_run \<longrightarrow> update_targets evs0 \<noteq> []) \<and>
          update_folder_and_contents n sv folder_id new_time recursive dry_run =
            (case walk n sv new_time recursive dry_run [folder_id] {} tr1 of
               (tr2, visited, Some (Inr u)) \<Rightarrow> (tr2 @ [Log LogAllDone], visited, Some (Inr u))
             | (tr2, visited, r) \<Rightarrow> (tr2, visited, r))"
    by blast
  have s1: "steps tr1 = [Mutated folder_id]" using rp(1,2,3) by (simp add: steps_no_list)
  have first: "\<exists>us. update_targets (fst (update_folder_and_contents n sv folder_id new_time recursive dry_run)) =
           folder_id # us" if "\<not> dry_run"
  proof -
    from that root_update_first[of sv folder_id "[(''modifiedTime'', new_time)]"
        "''id, name, modifiedTime''" "[Log (LogUpdatingFolder folder_id new_time)]"]
      run_extends_root_update[of n sv folder_id new_time recursive dry_run]
    obtain evs more where
      "fst (update_folder_and_contents n sv folder_id new_time recursive dry_run) =
        ([Log (LogUpdatingFolder folder_id new_time)] @
           FilesUpdate folder_id [(''modifiedTime'', new_time)] ''id, name, modifiedTime'' # evs) @ more"
      by auto
    then show ?thesis by simp
  qed
  show ?thesis
  proof (cases r0)
    case (Inl e)
    with rp(5) have u: "update_folder_and_contents n sv folder_id new_time recursive dry_run =
        (tr1, {}, Some (Inl e))" by simp
    with s1 first show ?thesis by simp
  next
    case (Inr u)
    obtain tr2 visited2 r2 where wk:
      "walk n sv new_time recursive dry_run [folder_id] {} tr1 = (tr2, visited2, r2)"
      by (cases "walk n sv new_time recursive dry_run [folder_id] {} tr1")
    from rp(5) Inr wk have run: "update_folder_and_contents n sv folder_id new_time recursive dry_run =
        (tr2 @ (if r2 = Some (Inr ()) then [Log LogAllDone] else []), visited2, r2)"
      by (auto split: option.splits sum.splits)
    from walk_first_step[OF wk] obtain evs where evs: "tr2 = tr1 @ evs"
      "evs = [] \<or> (\<exists>ss. steps evs = Expanded folder_id # ss)"
      by auto
    have st: "steps (fst (update_folder_and_contents n sv folder_id new_time recursive dry_run)) =
        Mutated folder_id # steps evs"
      unfolding run using evs(1) s1 by simp
    have a: "\<exists>ss. steps (fst (update_folder_and_contents n sv folder_id new_time recursive dry_run)) =
           Mutated folder_id # ss \<and>
         (ss = [] \<or> (\<exists>ss'. ss = Expanded folder_id # ss'))"
      unfolding st using evs(2) by auto
    have b: "steps (fst (update_folder_and_contents n sv folder_id new_time recursive dry_run)) =
          Mutated folder_id # concat (bfs_levels n (listing n sv) recursive [folder_id] {})"
      if "static_listing sv"
        "snd (snd (update_folder_and_contents n sv folder_id new_time recursive dry_run)) = Some (Inr ())"
    proof -
      from that(2) run have "r2 = Some (Inr ())" by simp
      with wk walk_levels[OF that(1), of n new_time recursive dry_run "[folder_id]" "{}" tr1 tr2 visited2 n n]
      obtain evs' where "tr2 = tr1 @ evs'"
        "steps evs' = concat (bfs_levels n (listing n sv) recursive [folder_id] {})"
        by auto
      with evs(1) st show ?thesis by simp
    qed
    from a b first show ?thesis by blast
  qed
qed

text \<open>
  Witness for C2: the scenario of the spec, recursive. The run mutates \<open>R\<close>, expands it
  and mutates \<open>folderA\<close> and \<open>file1\<close>, then expands \<open>folderA\<close> and mutates \<open>file2\<close>: four
  update requests, in breadth-first order.
\<close>

theorem breadth_first_run_witness:
  "static_listing (static_env scenario_kids) \<and>
   snd (snd (scenario_run True False)) = Some (Inr ()) \<and>
   steps (fst (scenario_run True False)) =
     Mutated ''R'' # concat (bfs_levels 10 (listing 10 (static_env scenario_kids)) True [''R''] {}) \<and>
   steps (fst (scenario_run True False)) =
     [Mutated ''R'', Expanded ''R'', Mutated ''folderA'', Mutated ''file1'',
      Expanded ''folderA'', Mutated ''file2''] \<and>
   (\<exists>us. update_targets (fst (scenario_run True False)) = ''R'' # us) \<and>
   update_targets (fst (scenario_run True False)) = [''R'', ''folderA'', ''file1'', ''file2'']"
proof -
  have h: "static_listing (static_env scenario_kids)"
    by (simp add: static_listing_def static_env_def)
  have ev: "snd (snd (scenario_run True False)) = Some (Inr ())"
    "steps (fst (scenario_run True False)) =
     [Mutated ''R'', Expanded ''R'', Mutated ''folderA'', Mutated ''file1'',
      Expanded ''folderA'', Mutated ''file2'']"
    "update_targets (fst (scenario_run True False)) = [''R'', ''folderA'', ''file1'', ''file2'']"
    by code_simp+
  note t = breadth_first_run[of 10 "static_env scenario_kids" "''R''" "''T''" True False,
      folded scenario_run_def]
  from t have "\<not> False \<longrightarrow> (\<exists>us. update_targets (fst (scenario_run True False)) = ''R'' # us)"
    by (elim conjE)
  then have 1: "\<exists>us. update_targets (fst (scenario_run True False)) = ''R'' # us"
    by (simp only: simp_thms)
  from t have "static_listing (static_env scenario_kids) \<and>
      snd (snd (scenario_run True False)) = Some (Inr ()) \<longrightarrow>
      steps (fst (scenario_run True False)) =
        Mutated ''R'' # concat (bfs_levels 10 (listing 10 (static_env scenario_kids)) True [''R''] {})"
    by (elim conjE)
  from this conjI[OF h ev(1)] have 2: "steps (fst (scenario_run True False)) =
      Mutated ''R'' # concat (bfs_levels 10 (listing 10 (static_env scenario_kids)) True [''R''] {})"
    by (rule mp)
  from h ev 1 2 show ?thesis by (intro conjI)
qed


lemma format_regex_errors:
  "format_regex fmt acc = Inl e \<Longrightarrow> \<exists>msg. e = ValueError msg"
  by (induction fmt acc rule: format_regex.induct) (auto split: if_splits option.splits)

lemma make_datetime_errors:
  "make_datetime y m d H M S us = Inl e \<Longrightarrow> \<exists>msg. e = ValueError msg"
  by (auto simp: make_datetime_def split: if_splits)

lemma strptime_errors:
  "strptime data_string fmt = Inl e \<Longrightarrow> \<exists>msg. e = ValueError msg"
  unfolding strptime_def
  by (auto split: sum.splits option.splits prod.splits if_splits
        dest: format_regex_errors make_datetime_errors)

lemma try_formats_total:
  "try_formats ts fmts = Inr (\<exists>fmt\<in>set fmts. \<exists>dt. strptime ts fmt = Inr dt)"
proof (induction fmts)
  case Nil
  then show ?case by simp
next
  case (Cons fmt fmts)
  show ?case
  proof (cases "strptime ts fmt")
    case (Inl e)
    with strptime_errors[OF Inl] Cons show ?thesis by auto
  next
    case (Inr dt)
    then show ?thesis by simp
  qed
qed

lemma rmatch_suffix:
  "rmatch r s g k = Some x \<Longrightarrow> \<exists>s' g'. suffix s' s \<and> k s' g' = Some x"
proof (induction r arbitrary: s g k)
  case Eps
  then show ?case by auto
next
  case (Lit c)
  then show ?case by (cases s) (auto split: if_splits intro: suffix_ConsI)
next
  case (OneOf cs)
  then show ?case by (cases s) (auto split: if_splits intro: suffix_ConsI)
next
  case (Seq r1 r2)
  from Seq.prems Seq.IH(1)[of s g "\<lambda>s' g'. rmatch r2 s' g' k"]
  obtain s1 g1 where 1: "suffix s1 s" "rmatch r2 s1 g1 k = Some x" by auto
  from Seq.IH(2)[OF 1(2)] obtain s2 g2 where "suffix s2 s1" "k s2 g2 = Some x" by blast
  with 1(1) show ?case by (meson suffix_order.trans)
next
  case (Alt r1 r2)
  then show ?case by (auto split: option.splits)
next
  case (Grp name r)
  from Grp.prems Grp.IH[of s g "\<lambda>s' g'. k s' ((name, take (length s - length s') s) # g')"]
  show ?case by auto
qed

lemma lower_z: "lower c = lower CHR ''Z'' \<Longrightarrow> c = CHR ''Z'' \<or> c = CHR ''z''"
  by (auto simp: lower_def split: if_splits)

end
